theory Spec2Isabelle
  imports Main "HOL-Library.AList"
begin

section \<open>Data model of \<open>BaseContentProvider.ts\<close>\<close>

text \<open>
  The content provider is a single object driven by an event loop. Its fields become one
  record; every method becomes a function from the record to the updated record. The
  asynchronous method \<open>processNextBatch\<close> is cut at its \<open>await\<close> points: each piece between
  two of them runs without interruption, and a batch that is waiting is a value of type
  \<open>Batch\<close> holding the local variables of the method (the captured session, the abort
  signal, the settings, the active jobs and the staged updates).

  A \<open>Map\<close> of JavaScript iterates in insertion order and \<open>set\<close> on a present key keeps
  its position, so a \<open>Map\<close> is an association list with \<open>AList.update\<close> and
  \<open>AList.delete\<close>. The two \<open>Set\<close>s of paths are never iterated and are HOL sets.
  Times (\<open>Date.now()\<close>, file modification times) are integers of milliseconds; one
  uninterrupted run reads one clock value. The session counter is a natural number.
\<close>

record TFile =
  path :: string
  stat_mtime :: int

datatype TAbstractFile = File TFile | Folder string

datatype NotebookNavigatorSettings = Settings nat

record ContentJob =
  job_file :: TFile
  job_path :: "string list"

record FileData =
  fd_providerProcessedMtime :: int
  fd_content :: nat

record ContentProviderUpdate =
  upd_path :: string
  upd_content :: nat

record ContentProviderProcessResult =
  res_update :: "ContentProviderUpdate option"
  res_processed :: bool

text \<open>What the \<open>await this.processFile(...)\<close> of one job yields: a result, or an exception.\<close>

datatype ProcessOutcome = Returned ContentProviderProcessResult | Threw

text \<open>How the awaited database write settles; \<open>Rejected True\<close> is an \<open>AbortError\<close>.\<close>

datatype WriteOutcome = Resolved | Rejected bool

record ActiveJob =
  aj_job :: ContentJob
  aj_fileData :: "FileData option"
  aj_needsProcessing :: bool
  aj_expectedProviderMtime :: int

record ProcessedMtimeUpdate =
  mu_path :: string
  mu_mtime :: int
  mu_expectedPreviousMtime :: int

record JobResult =
  jr_job :: ContentJob
  jr_result :: ContentProviderProcessResult
  jr_fileMtimeAtStart :: int
  jr_expectedProviderMtime :: int

record RetryEntry =
  attempts :: nat
  nextRetryAt :: int

datatype Phase = AwaitChunk nat | AwaitYield nat | AwaitWrite

record Batch =
  b_session :: nat
  b_abortSignal :: nat
  b_settings :: NotebookNavigatorSettings
  b_activeJobs :: "ActiveJob list"
  b_updates :: "ContentProviderUpdate list"
  b_processedMtimeUpdates :: "ProcessedMtimeUpdate list"
  b_phase :: Phase

text \<open>
  A call of \<open>batchUpdateFileContentAndProviderProcessedMtimes\<close>, tagged with the session
  that the issuing batch captured when it started.
\<close>

record DbWrite =
  w_session :: nat
  w_contentUpdates :: "ContentProviderUpdate list"
  w_processedMtimeUpdates :: "ProcessedMtimeUpdate list"

datatype ConsoleError =
  RetryExhausted string nat
  | JobError string
  | BatchError

text \<open>
  The fields of the class, followed by what surrounds the instance: the abort signals
  that have fired (\<open>aborted\<close>; a controller is the index of its signal and \<open>controllers\<close>
  counts the ones created), the batches waiting at an \<open>await\<close>, the callbacks handed to
  \<open>requestAnimationFrame\<close>/\<open>setTimeout(0)\<close> for the next batch, the database writes issued
  and the lines written by \<open>console.error\<close>. The debounce timer carries no data and is a
  flag; the retry timer keeps the session its callback captured and its delay.
\<close>

record Provider =
  queue :: "ContentJob list"
  isProcessing :: bool
  abortController :: "nat option"
  queueDebounceTimer :: bool
  currentBatchSettings :: "NotebookNavigatorSettings option"
  processingFiles :: "string set"
  queuedFiles :: "string set"
  dirtyFilesDuringProcessing :: "(string \<times> TFile) list"
  stopped :: bool
  processingSession :: nat
  retryTimer :: "(nat \<times> int) option"
  retryState :: "(string \<times> RetryEntry) list"
  aborted :: "nat set"
  controllers :: nat
  inflight :: "Batch list"
  pendingTicks :: nat
  dbWrites :: "DbWrite list"
  console :: "ConsoleError list"

text \<open>
  What one uninterrupted run reads from outside the instance: the clock, the database
  lookup, the two abstract methods of the concrete provider, the vault, the shutdown
  flag and the settlement of an awaited write.
\<close>

record Env =
  e_now :: int
  e_getFile :: "string \<Rightarrow> FileData option"
  e_needsProcessing :: "FileData option \<Rightarrow> TFile \<Rightarrow> NotebookNavigatorSettings \<Rightarrow> bool"
  e_processFile :: "ContentJob \<Rightarrow> FileData option \<Rightarrow> NotebookNavigatorSettings \<Rightarrow> ProcessOutcome"
  e_getAbstractFileByPath :: "string \<Rightarrow> TAbstractFile option"
  e_isShutdownInProgress :: bool
  e_writeOutcome :: WriteOutcome

definition QUEUE_BATCH_SIZE :: nat where "QUEUE_BATCH_SIZE = 100"
definition PARALLEL_LIMIT :: nat where "PARALLEL_LIMIT = 10"
definition RETRY_UNSCHEDULED_AT :: int where "RETRY_UNSCHEDULED_AT = 9007199254740991"
definition RETRY_INITIAL_DELAY_MS :: int where "RETRY_INITIAL_DELAY_MS = 1000"
definition RETRY_MAX_DELAY_MS :: int where "RETRY_MAX_DELAY_MS = 30000"
definition RETRY_MAX_ATTEMPTS :: nat where "RETRY_MAX_ATTEMPTS = 5"

definition initial :: Provider where
  "initial = \<lparr> queue = [], isProcessing = False, abortController = None,
     queueDebounceTimer = False, currentBatchSettings = None, processingFiles = {},
     queuedFiles = {}, dirtyFilesDuringProcessing = [], stopped = False,
     processingSession = 0, retryTimer = None, retryState = [], aborted = {},
     controllers = 0, inflight = [], pendingTicks = 0, dbWrites = [], console = [] \<rparr>"

section \<open>Retry scheduler\<close>

definition clearRetryTimer :: "Provider \<Rightarrow> Provider" where
  "clearRetryTimer st = st\<lparr>retryTimer := None\<rparr>"

definition clearRetryState :: "Provider \<Rightarrow> Provider" where
  "clearRetryState st = (clearRetryTimer st)\<lparr>retryState := []\<rparr>"

text \<open>The loop of \<open>scheduleRetryTimer\<close> over \<open>retryState.values()\<close>.\<close>

fun earliestRetry :: "(string \<times> RetryEntry) list \<Rightarrow> int \<Rightarrow> int" where
  "earliestRetry [] nxt = nxt"
| "earliestRetry ((p, e) # es) nxt =
     earliestRetry es (if nextRetryAt e < nxt then nextRetryAt e else nxt)"

definition scheduleRetryTimer :: "int \<Rightarrow> nat \<Rightarrow> Provider \<Rightarrow> Provider" where
  "scheduleRetryTimer now session st =
     (if stopped st \<or> processingSession st \<noteq> session \<or> retryState st = []
      then clearRetryTimer st
      else let nxt = earliestRetry (retryState st) RETRY_UNSCHEDULED_AT in
        if nxt = RETRY_UNSCHEDULED_AT then clearRetryTimer st
        else (clearRetryTimer st)\<lparr>retryTimer := Some (session, max 0 (nxt - now))\<rparr>)"

definition clearRetryForPath :: "int \<Rightarrow> string \<Rightarrow> Provider \<Rightarrow> Provider" where
  "clearRetryForPath now p st =
     (if map_of (retryState st) p = None then st
      else scheduleRetryTimer now (processingSession st)
             (st\<lparr>retryState := AList.delete p (retryState st)\<rparr>))"

text \<open>Line 162: the backoff delay of the \<open>attempts\<close>-th failure.\<close>

definition retryDelay :: "nat \<Rightarrow> int" where
  "retryDelay n = min (RETRY_INITIAL_DELAY_MS * 2 ^ (n - 1)) RETRY_MAX_DELAY_MS"

definition scheduleRetry :: "int \<Rightarrow> TFile \<Rightarrow> nat \<Rightarrow> Provider \<Rightarrow> Provider" where
  "scheduleRetry now f session st =
     (if stopped st \<or> processingSession st \<noteq> session then st
      else
        let existing = map_of (retryState st) (path f);
            n = (case existing of Some e \<Rightarrow> attempts e + 1 | None \<Rightarrow> 1)
        in if n > RETRY_MAX_ATTEMPTS then
             (case existing of
                Some e \<Rightarrow>
                  scheduleRetryTimer now session
                    (st\<lparr>console := console st @ [RetryExhausted (path f) n],
                        retryState := AList.delete (path f) (retryState st)\<rparr>)
              | None \<Rightarrow> st)
           else
             scheduleRetryTimer now session
               (st\<lparr>retryState :=
                     AList.update (path f) \<lparr>attempts = n, nextRetryAt = now + retryDelay n\<rparr>
                       (retryState st)\<rparr>))"

section \<open>Queueing\<close>

text \<open>\<open>p.split('/')\<close>.\<close>

fun split_on :: "char \<Rightarrow> string \<Rightarrow> string list" where
  "split_on c [] = [] # []"
| "split_on c (x # xs) =
     (if x = c then [] # split_on c xs
      else (case split_on c xs of w # ws \<Rightarrow> (x # w) # ws | [] \<Rightarrow> [x] # []))"

definition mkJob :: "TFile \<Rightarrow> ContentJob" where
  "mkJob f = \<lparr>job_file = f, job_path = split_on CHR ''/'' (path f)\<rparr>"

definition startProcessing :: "NotebookNavigatorSettings \<Rightarrow> Provider \<Rightarrow> Provider" where
  "startProcessing settings st =
     st\<lparr>stopped := False, currentBatchSettings := Some settings, queueDebounceTimer := True\<rparr>"

definition onSettingsChanged :: "NotebookNavigatorSettings \<Rightarrow> Provider \<Rightarrow> Provider" where
  "onSettingsChanged settings st = st\<lparr>currentBatchSettings := Some settings\<rparr>"

text \<open>
  The \<open>for\<close> loop of \<open>queueFiles\<close>: it reads \<open>processingFiles\<close>, and updates the dirty map,
  the queued set and the local list \<open>newJobs\<close>.
\<close>

fun queueLoop :: "TFile list \<Rightarrow> Provider \<Rightarrow> ContentJob list \<Rightarrow> Provider \<times> ContentJob list" where
  "queueLoop [] st newJobs = (st, newJobs)"
| "queueLoop (f # fs) st newJobs =
     (let p = path f in
      if p \<in> processingFiles st then
        queueLoop fs
          (st\<lparr>dirtyFilesDuringProcessing := AList.update p f (dirtyFilesDuringProcessing st)\<rparr>)
          newJobs
      else if p \<in> queuedFiles st then queueLoop fs st newJobs
      else queueLoop fs (st\<lparr>queuedFiles := insert p (queuedFiles st)\<rparr>) (newJobs @ [mkJob f]))"

definition queueFiles :: "TFile list \<Rightarrow> Provider \<Rightarrow> Provider" where
  "queueFiles files st =
     (if stopped st then st
      else case queueLoop files st [] of (st1, newJobs) \<Rightarrow>
        if newJobs \<noteq> [] then
          (let st2 = st1\<lparr>queue := queue st1 @ newJobs\<rparr> in
           case currentBatchSettings st2 of
             Some settings \<Rightarrow>
               if \<not> isProcessing st2 \<and> \<not> queueDebounceTimer st2
               then startProcessing settings st2 else st2
           | None \<Rightarrow> st2)
        else st1)"

text \<open>
  The loop of \<open>flushRetries\<close> over the entries of \<open>retryState\<close>. Replacing or deleting
  the entry under the cursor does not disturb the iteration of a \<open>Map\<close>, so the loop
  visits the entries present when it starts.
\<close>

fun flushLoop :: "Env \<Rightarrow> int \<Rightarrow> (string \<times> RetryEntry) list \<Rightarrow> Provider \<Rightarrow> TFile list
    \<Rightarrow> Provider \<times> TFile list" where
  "flushLoop env now [] st filesToRetry = (st, filesToRetry)"
| "flushLoop env now ((p, e) # es) st filesToRetry =
     (if nextRetryAt e > now then flushLoop env now es st filesToRetry
      else case e_getAbstractFileByPath env p of
        Some (File f) \<Rightarrow>
          flushLoop env now es
            (st\<lparr>retryState :=
                  AList.update p (e\<lparr>nextRetryAt := RETRY_UNSCHEDULED_AT\<rparr>) (retryState st)\<rparr>)
            (filesToRetry @ [f])
      | _ \<Rightarrow>
          flushLoop env now es (st\<lparr>retryState := AList.delete p (retryState st)\<rparr>)
            filesToRetry)"

definition flushRetries :: "Env \<Rightarrow> nat \<Rightarrow> Provider \<Rightarrow> Provider" where
  "flushRetries env session st =
     (if stopped st \<or> processingSession st \<noteq> session \<or> retryState st = []
      then clearRetryState st
      else case flushLoop env (e_now env) (retryState st) st [] of (st1, filesToRetry) \<Rightarrow>
        scheduleRetryTimer (e_now env) session
          (if filesToRetry \<noteq> [] then queueFiles filesToRetry st1 else st1))"

section \<open>Stopping\<close>

definition stopProcessing :: "Provider \<Rightarrow> Provider" where
  "stopProcessing st =
     (let st1 = st\<lparr>processingSession := processingSession st + 1, stopped := True\<rparr>;
          st2 = (case abortController st1 of
                   Some c \<Rightarrow> st1\<lparr>aborted := insert c (aborted st1), abortController := None\<rparr>
                 | None \<Rightarrow> st1);
          st3 = st2\<lparr>queueDebounceTimer := False\<rparr>;
          st4 = clearRetryState st3
      in st4\<lparr>isProcessing := False, queue := [], processingFiles := {}, queuedFiles := {},
             dirtyFilesDuringProcessing := []\<rparr>)"

section \<open>Batch processing\<close>

definition ajPath :: "ActiveJob \<Rightarrow> string" where
  "ajPath a = path (job_file (aj_job a))"

text \<open>\<open>this.stopped || abortSignal.aborted || this.processingSession !== session\<close>.\<close>

definition cancelled :: "Batch \<Rightarrow> Provider \<Rightarrow> bool" where
  "cancelled b st =
     (stopped st \<or> b_abortSignal b \<in> aborted st \<or> processingSession st \<noteq> b_session b)"

text \<open>
  Of the exceptions that can cross the \<open>try\<close> block, the model has the two the method
  is written for: a \<open>processFile\<close> that throws, caught per job, and a database write that
  rejects, caught for the batch. \<open>activeBatchPromise\<close> and \<open>waitForIdle\<close> only observe
  the batches and are left out.

  The \<open>finally\<close> block. It runs on every way out of the method: the early return on an
  empty \<open>activeJobs\<close>, the end of the \<open>try\<close> block and the \<open>catch\<close>.
\<close>

definition finallyBlock :: "Batch \<Rightarrow> Provider \<Rightarrow> Provider" where
  "finallyBlock b st =
     (let isActiveSession =
            (processingSession st = b_session b \<and> \<not> stopped st \<and> b_abortSignal b \<notin> aborted st);
          st1 = (if processingSession st = b_session b
                 then st\<lparr>processingFiles := processingFiles st - set (map ajPath (b_activeJobs b))\<rparr>
                 else st);
          st2 = (if isActiveSession then
                   (let dirtyFiles = map snd (dirtyFilesDuringProcessing st1);
                        st' = st1\<lparr>dirtyFilesDuringProcessing := []\<rparr>
                    in if dirtyFiles \<noteq> [] then queueFiles dirtyFiles st' else st')
                 else if processingSession st1 = b_session b
                 then st1\<lparr>dirtyFilesDuringProcessing := []\<rparr>
                 else st1);
          st3 = st2\<lparr>isProcessing := False\<rparr>
      in if queue st3 \<noteq> [] \<and> isActiveSession
         then st3\<lparr>pendingTicks := pendingTicks st3 + 1\<rparr> else st3)"

text \<open>
  The \<open>async\<close> closure mapped over a chunk (lines 371 to 385): the result of
  \<open>processFile\<close>, or on an exception the logged path and the not-processed result.
\<close>

definition runJob :: "Env \<Rightarrow> NotebookNavigatorSettings \<Rightarrow> ActiveJob \<Rightarrow> JobResult \<times> ConsoleError list" where
  "runJob env settings a =
     (case e_processFile env (aj_job a) (aj_fileData a) settings of
        Returned r \<Rightarrow>
          (\<lparr>jr_job = aj_job a, jr_result = r,
            jr_fileMtimeAtStart = stat_mtime (job_file (aj_job a)),
            jr_expectedProviderMtime = aj_expectedProviderMtime a\<rparr>, [])
      | Threw \<Rightarrow>
          (\<lparr>jr_job = aj_job a, jr_result = \<lparr>res_update = None, res_processed = False\<rparr>,
            jr_fileMtimeAtStart = stat_mtime (job_file (aj_job a)),
            jr_expectedProviderMtime = aj_expectedProviderMtime a\<rparr>,
           [JobError (path (job_file (aj_job a)))]))"

text \<open>The body of \<open>results.forEach\<close> (lines 388 to 408).\<close>

definition handleResult :: "int \<Rightarrow> JobResult \<Rightarrow> Provider \<times> Batch \<Rightarrow> Provider \<times> Batch" where
  "handleResult now r sb =
     (case sb of (st, b) \<Rightarrow>
      let st1 = (if processingSession st = b_session b \<and> \<not> stopped st
                    \<and> b_abortSignal b \<notin> aborted st
                 then (if \<not> res_processed (jr_result r)
                       then scheduleRetry now (job_file (jr_job r)) (b_session b) st
                       else clearRetryForPath now (path (job_file (jr_job r))) st)
                 else st);
          b1 = (if res_processed (jr_result r)
                then b\<lparr>b_processedMtimeUpdates := b_processedMtimeUpdates b @
                        [\<lparr>mu_path = path (job_file (jr_job r)),
                          mu_mtime = jr_fileMtimeAtStart r,
                          mu_expectedPreviousMtime = jr_expectedProviderMtime r\<rparr>]\<rparr>
                else b);
          b2 = (case res_update (jr_result r) of
                  Some u \<Rightarrow> b1\<lparr>b_updates := b_updates b1 @ [u]\<rparr>
                | None \<Rightarrow> b1)
      in (st1, b2))"

text \<open>
  After the loop (lines 414 to 427): the guarded database write, awaited, or else the
  \<open>finally\<close> block at once.
\<close>

definition afterLoop :: "Env \<Rightarrow> Batch \<Rightarrow> Provider \<Rightarrow> Provider \<times> Batch option" where
  "afterLoop env b st =
     (if \<not> cancelled b st \<and> (b_updates b \<noteq> [] \<or> b_processedMtimeUpdates b \<noteq> []) then
        (if \<not> e_isShutdownInProgress env then
           (st\<lparr>dbWrites := dbWrites st @
                 [\<lparr>w_session = b_session b, w_contentUpdates = b_updates b,
                   w_processedMtimeUpdates = b_processedMtimeUpdates b\<rparr>]\<rparr>,
            Some (b\<lparr>b_phase := AwaitWrite\<rparr>))
         else (finallyBlock b st, None))
      else (finallyBlock b st, None))"

text \<open>
  The head of the \<open>for\<close> loop at index \<open>i\<close>: leave the loop, or start the chunk and wait
  for its \<open>Promise.all\<close>.
\<close>

definition loopHead :: "Env \<Rightarrow> Batch \<Rightarrow> nat \<Rightarrow> Provider \<Rightarrow> Provider \<times> Batch option" where
  "loopHead env b i st =
     (if i < length (b_activeJobs b) \<and> \<not> cancelled b st
      then (st, Some (b\<lparr>b_phase := AwaitChunk i\<rparr>))
      else afterLoop env b st)"

definition mkActiveJob :: "Env \<Rightarrow> NotebookNavigatorSettings \<Rightarrow> ContentJob \<Rightarrow> ActiveJob" where
  "mkActiveJob env settings job =
     (let fileData = e_getFile env (path (job_file job)) in
      \<lparr>aj_job = job, aj_fileData = fileData,
       aj_needsProcessing = e_needsProcessing env fileData (job_file job) settings,
       aj_expectedProviderMtime =
         (case fileData of Some d \<Rightarrow> fd_providerProcessedMtime d | None \<Rightarrow> 0)\<rparr>)"

text \<open>\<open>processNextBatch\<close> from its call to its first \<open>await\<close> (or to its return).\<close>

definition processNextBatch :: "Env \<Rightarrow> Provider \<Rightarrow> Provider \<times> Batch option" where
  "processNextBatch env st =
     (if stopped st \<or> isProcessing st \<or> queue st = [] then (st, None)
      else case currentBatchSettings st of
        None \<Rightarrow> (st, None)
      | Some settings \<Rightarrow>
          let session = processingSession st;
              signal = controllers st;
              st1 = st\<lparr>isProcessing := True, abortController := Some signal,
                       controllers := controllers st + 1\<rparr>;
              batch = take QUEUE_BATCH_SIZE (queue st1);
              st2 = st1\<lparr>queue := drop QUEUE_BATCH_SIZE (queue st1),
                        queuedFiles := queuedFiles st1 - set (map (\<lambda>j. path (job_file j)) batch)\<rparr>;
              jobsWithData = map (mkActiveJob env settings) batch;
              activeJobs = filter aj_needsProcessing jobsWithData;
              b = \<lparr>b_session = session, b_abortSignal = signal, b_settings = settings,
                   b_activeJobs = activeJobs, b_updates = [], b_processedMtimeUpdates = [],
                   b_phase = AwaitChunk 0\<rparr>
          in if activeJobs = [] then (finallyBlock b st2, None)
             else loopHead env b 0
                    (st2\<lparr>processingFiles := processingFiles st2 \<union> set (map ajPath activeJobs)\<rparr>))"

text \<open>A batch resumed at the \<open>await\<close> where it waits, up to its next \<open>await\<close> or its end.\<close>

definition resumeBatch :: "Env \<Rightarrow> Batch \<Rightarrow> Provider \<Rightarrow> Provider \<times> Batch option" where
  "resumeBatch env b st =
     (case b_phase b of
        AwaitChunk i \<Rightarrow>
          (let parallelBatch = take PARALLEL_LIMIT (drop i (b_activeJobs b));
               ran = map (runJob env (b_settings b)) parallelBatch;
               st1 = st\<lparr>console := console st @ concat (map snd ran)\<rparr>
           in case foldl (\<lambda>sb r. handleResult (e_now env) r sb) (st1, b) (map fst ran) of
                (st2, b2) \<Rightarrow> (st2, Some (b2\<lparr>b_phase := AwaitYield i\<rparr>)))
      | AwaitYield i \<Rightarrow> loopHead env b (i + PARALLEL_LIMIT) st
      | AwaitWrite \<Rightarrow>
          (case e_writeOutcome env of
             Resolved \<Rightarrow> (finallyBlock b st, None)
           | Rejected isAbortError \<Rightarrow>
               (finallyBlock b
                  (if isAbortError then st else st\<lparr>console := console st @ [BatchError]\<rparr>),
                None)))"

text \<open>A batch that reached an \<open>await\<close> joins the waiting ones.\<close>

definition settle :: "Provider \<times> Batch option \<Rightarrow> Provider" where
  "settle r = (case r of (st, None) \<Rightarrow> st
               | (st, Some b) \<Rightarrow> st\<lparr>inflight := inflight st @ [b]\<rparr>)"

definition runProcessNextBatch :: "Env \<Rightarrow> Provider \<Rightarrow> Provider" where
  "runProcessNextBatch env st = settle (processNextBatch env st)"

section \<open>The event loop\<close>

datatype Event =
  QueueFiles "TFile list"
  | StartProcessing NotebookNavigatorSettings
  | OnSettingsChanged NotebookNavigatorSettings
  | StopProcessing
  | DebounceTimerFires
  | RetryTimerFires
  | NextBatchTick
  | BatchResumes nat

text \<open>
  One turn of the event loop. An event that is not enabled (a timer that is not armed,
  a batch that is not waiting) leaves the state as it is.
\<close>

fun step :: "Env \<Rightarrow> Event \<Rightarrow> Provider \<Rightarrow> Provider" where
  "step env (QueueFiles files) st = queueFiles files st"
| "step env (StartProcessing settings) st = startProcessing settings st"
| "step env (OnSettingsChanged settings) st = onSettingsChanged settings st"
| "step env StopProcessing st = stopProcessing st"
| "step env DebounceTimerFires st =
     (if queueDebounceTimer st then
        (let st1 = st\<lparr>queueDebounceTimer := False\<rparr> in
         if \<not> stopped st1 \<and> \<not> isProcessing st1 \<and> queue st1 \<noteq> []
         then runProcessNextBatch env st1 else st1)
      else st)"
| "step env RetryTimerFires st =
     (case retryTimer st of
        Some (session, delay) \<Rightarrow> flushRetries env session (st\<lparr>retryTimer := None\<rparr>)
      | None \<Rightarrow> st)"
| "step env NextBatchTick st =
     (if pendingTicks st > 0
      then runProcessNextBatch env (st\<lparr>pendingTicks := pendingTicks st - 1\<rparr>)
      else st)"
| "step env (BatchResumes k) st =
     (if k < length (inflight st) then
        settle (resumeBatch env (inflight st ! k)
                  (st\<lparr>inflight := take k (inflight st) @ drop (Suc k) (inflight st)\<rparr>))
      else st)"

fun run :: "(Env \<times> Event) list \<Rightarrow> Provider \<Rightarrow> Provider" where
  "run [] st = st"
| "run ((env, ev) # tr) st = run tr (step env ev st)"

inductive reachable :: "Provider \<Rightarrow> bool" where
  reachable_initial: "reachable initial"
| reachable_step: "reachable st \<Longrightarrow> reachable (step env ev st)"

section \<open>Invariants\<close>

text \<open>
  The queue and the queued set describe the same paths, each once. The tracking
  structures: a queued path is not being processed, and a path is recorded as dirty only
  while it is being processed. The dirty map has one entry per key, filed under the path
  of its file. A stopped provider holds no work. Every waiting batch captured a session
  that is not newer than the current one, and a batch whose session is still current has
  seen neither a stop nor an abort.
\<close>

definition queue_inv :: "Provider \<Rightarrow> bool" where
  "queue_inv st =
     (distinct (map (\<lambda>j. path (job_file j)) (queue st))
      \<and> set (map (\<lambda>j. path (job_file j)) (queue st)) = queuedFiles st)"

definition tracking_inv :: "Provider \<Rightarrow> bool" where
  "tracking_inv st =
     (queuedFiles st \<inter> processingFiles st = {}
      \<and> fst ` set (dirtyFilesDuringProcessing st) \<subseteq> processingFiles st)"

definition dirty_wf :: "Provider \<Rightarrow> bool" where
  "dirty_wf st =
     (distinct (map fst (dirtyFilesDuringProcessing st))
      \<and> (\<forall>kf \<in> set (dirtyFilesDuringProcessing st). path (snd kf) = fst kf))"

definition stopped_inv :: "Provider \<Rightarrow> bool" where
  "stopped_inv st =
     (stopped st \<longrightarrow> queue st = [] \<and> queuedFiles st = {} \<and> processingFiles st = {}
        \<and> dirtyFilesDuringProcessing st = [])"

definition core_inv :: "Provider \<Rightarrow> bool" where
  "core_inv st = (queue_inv st \<and> tracking_inv st \<and> dirty_wf st \<and> stopped_inv st)"

definition batch_ok :: "Provider \<Rightarrow> Batch \<Rightarrow> bool" where
  "batch_ok st b =
     (b_session b \<le> processingSession st \<and> b_abortSignal b < controllers st
      \<and> (b_session b = processingSession st \<longrightarrow>
            \<not> stopped st \<and> b_abortSignal b \<notin> aborted st))"

definition session_inv :: "Provider \<Rightarrow> bool" where
  "session_inv st =
     ((\<forall>b \<in> set (inflight st). batch_ok st b)
      \<and> (\<forall>c \<in> aborted st. c < controllers st)
      \<and> (\<forall>c \<in> set_option (abortController st). c < controllers st))"

text \<open>
  Proof devices: the retry scheduler touches only its own fields and the console; \<open>core\<close>
  and \<open>ctl\<close> collect the fields the invariants read; a batch keeps its captured values while
  it waits; \<open>wrote\<close> relates a state to a later one that differs in the control fields only
  by database writes issued under the current session.
\<close>

definition retryFrame :: "Provider \<Rightarrow> Provider \<Rightarrow> bool" where
  "retryFrame st st' =
     (st' = st\<lparr>retryTimer := retryTimer st', retryState := retryState st', console := console st'\<rparr>)"

definition core :: "Provider \<Rightarrow> ContentJob list \<times> string set \<times> string set \<times> (string \<times> TFile) list \<times> bool" where
  "core st = (queue st, queuedFiles st, processingFiles st, dirtyFilesDuringProcessing st, stopped st)"

definition ctl :: "Provider \<Rightarrow> Batch list \<times> nat \<times> bool \<times> nat set \<times> nat \<times> nat option \<times> DbWrite list" where
  "ctl st = (inflight st, processingSession st, stopped st, aborted st, controllers st,
             abortController st, dbWrites st)"

definition same_batch :: "Batch \<Rightarrow> Batch \<Rightarrow> bool" where
  "same_batch b b' =
     (b_session b' = b_session b \<and> b_abortSignal b' = b_abortSignal b
      \<and> b_activeJobs b' = b_activeJobs b \<and> b_settings b' = b_settings b)"

definition wrote :: "Provider \<Rightarrow> Provider \<Rightarrow> bool" where
  "wrote st st' =
     (\<exists>ws. ctl st' = ctl (st\<lparr>dbWrites := dbWrites st @ ws\<rparr>)
           \<and> (\<forall>w \<in> set ws. w_session w = processingSession st))"

section \<open>Concrete runs\<close>

text \<open>
  A file, an environment in which every file needs processing and is processed with an
  update, and a few runs of the event loop used to instantiate the theorems below.
\<close>

definition noteA :: TFile where
  "noteA = \<lparr>path = ''notes/a.md'', stat_mtime = 5\<rparr>"

definition noteB :: TFile where
  "noteB = \<lparr>path = ''notes/b.md'', stat_mtime = 7\<rparr>"

definition workingEnv :: Env where
  "workingEnv =
     \<lparr>e_now = 0, e_getFile = (\<lambda>p. None), e_needsProcessing = (\<lambda>d f s. True),
      e_processFile = (\<lambda>j d s. Returned
         \<lparr>res_update = Some \<lparr>upd_path = path (job_file j), upd_content = 1\<rparr>,
          res_processed = True\<rparr>),
      e_getAbstractFileByPath = (\<lambda>p. Some (File \<lparr>path = p, stat_mtime = 5\<rparr>)),
      e_isShutdownInProgress = False, e_writeOutcome = Resolved\<rparr>"

text \<open>Start, enqueue \<open>noteA\<close>, let the debounce timer fire: one batch waits for its chunk.\<close>

definition startedBatch :: "(Env \<times> Event) list" where
  "startedBatch =
     [(workingEnv, StartProcessing (Settings 0)), (workingEnv, QueueFiles [noteA]),
      (workingEnv, DebounceTimerFires)]"

text \<open>
  After a stop: restart, enqueue again, let the old batch run to its end, then let a new
  batch run up to its database write.
\<close>

definition afterRestart :: "(Env \<times> Event) list" where
  "afterRestart =
     [(workingEnv, StartProcessing (Settings 0)), (workingEnv, QueueFiles [noteA]),
      (workingEnv, BatchResumes 0), (workingEnv, BatchResumes 0),
      (workingEnv, DebounceTimerFires), (workingEnv, BatchResumes 0),
      (workingEnv, BatchResumes 0)]"

text \<open>The chunk of the batch has been handled; the batch waits to go round its loop.\<close>

definition chunkDone :: "(Env \<times> Event) list" where
  "chunkDone = startedBatch @ [(workingEnv, BatchResumes 0)]"

definition yieldingBatch :: Batch where
  "yieldingBatch = hd (inflight (run chunkDone initial))"

text \<open>\<open>noteA\<close> is enqueued again while its batch is waiting.\<close>

definition enqueuedMidBatch :: "(Env \<times> Event) list" where
  "enqueuedMidBatch = startedBatch @ [(workingEnv, QueueFiles [noteA])]"

text \<open>\<open>noteA\<close> and \<open>noteB\<close> are enqueued while the batch of \<open>noteA\<close> is waiting.\<close>

definition twoEnqueuedMidBatch :: "(Env \<times> Event) list" where
  "twoEnqueuedMidBatch = startedBatch @ [(workingEnv, QueueFiles [noteA, noteB])]"




section \<open>Counting failures\<close>

text \<open>
  The attempts recorded for a path (none recorded counts as zero), and one failure of a
  file followed by the firing of the retry timer: \<open>scheduleRetry\<close> at the time of the
  failure, then \<open>flushRetries\<close> in the environment of the firing.
\<close>

definition attemptsOf :: "Provider \<Rightarrow> string \<Rightarrow> nat" where
  "attemptsOf st p = (case map_of (retryState st) p of None \<Rightarrow> 0 | Some e \<Rightarrow> attempts e)"

definition failureCycle :: "TFile \<Rightarrow> nat \<Rightarrow> Provider \<Rightarrow> int \<times> Env \<Rightarrow> Provider" where
  "failureCycle f session st c =
     flushRetries (snd c) session (scheduleRetry (fst c) f session st)"

text \<open>
  Five failures of \<open>noteA\<close>, each followed by a firing of the timer after the backoff
  delay; and the provider after \<open>n\<close> failures of \<open>noteA\<close> at time 0 with no firing between.
\<close>

definition envAt :: "int \<Rightarrow> Env" where
  "envAt t = workingEnv\<lparr>e_now := t\<rparr>"

definition fiveFailures :: "(int \<times> Env) list" where
  "fiveFailures = [(0, envAt 1000), (1000, envAt 3000), (3000, envAt 7000),
                   (7000, envAt 15000), (15000, envAt 31000)]"

definition afterFailures :: "nat \<Rightarrow> Provider" where
  "afterFailures n =
     foldl (\<lambda>s t. scheduleRetry t noteA 0 s) (startProcessing (Settings 0) initial)
       (replicate n 0)"

section \<open>Exceptions of \<open>processFile\<close>\<close>



definition exceptConsole :: "Provider \<Rightarrow> Provider" where
  "exceptConsole st = st\<lparr>console := []\<rparr>"



section \<open>What the specification says of \<open>flushRetries\<close>\<close>

text \<open>
  Following the words of the specification, entry by entry: what becomes of a retry
  entry when the timer fires at \<open>now\<close>, which file it sends back to the queue, and the
  timer armed from a list of entries.
\<close>

definition entryAfterFlush :: "Env \<Rightarrow> int \<Rightarrow> string \<times> RetryEntry \<Rightarrow> (string \<times> RetryEntry) list" where
  "entryAfterFlush env now pe =
     (if nextRetryAt (snd pe) \<le> now then
        (case e_getAbstractFileByPath env (fst pe) of
           Some (File f) \<Rightarrow> [(fst pe, (snd pe)\<lparr>nextRetryAt := RETRY_UNSCHEDULED_AT\<rparr>)]
         | _ \<Rightarrow> [])
      else [pe])"

definition fileToRetry :: "Env \<Rightarrow> int \<Rightarrow> string \<times> RetryEntry \<Rightarrow> TFile list" where
  "fileToRetry env now pe =
     (if nextRetryAt (snd pe) \<le> now then
        (case e_getAbstractFileByPath env (fst pe) of Some (File f) \<Rightarrow> [f] | _ \<Rightarrow> [])
      else [])"

definition retryStateAfterFlush :: "Env \<Rightarrow> int \<Rightarrow> (string \<times> RetryEntry) list \<Rightarrow> (string \<times> RetryEntry) list" where
  "retryStateAfterFlush env now rs = concat (map (entryAfterFlush env now) rs)"

definition filesToRetryOf :: "Env \<Rightarrow> int \<Rightarrow> (string \<times> RetryEntry) list \<Rightarrow> TFile list" where
  "filesToRetryOf env now rs = concat (map (fileToRetry env now) rs)"

definition retryTimerFor :: "nat \<Rightarrow> int \<Rightarrow> (string \<times> RetryEntry) list \<Rightarrow> (nat \<times> int) option" where
  "retryTimerFor session now rs =
     (let earliest = Min (insert RETRY_UNSCHEDULED_AT (set (map (nextRetryAt \<circ> snd) rs)))
      in if rs = [] \<or> earliest = RETRY_UNSCHEDULED_AT then None
         else Some (session, max 0 (earliest - now)))"

text \<open>
  Three files wait for a retry, \<open>noteC\<close> later than the others; when the timer fires at
  1500, \<open>noteB\<close> is gone from the vault.
\<close>

definition noteC :: TFile where
  "noteC = \<lparr>path = ''notes/c.md'', stat_mtime = 3\<rparr>"

definition retryingProvider :: Provider where
  "retryingProvider =
     scheduleRetry 5000 noteC 0
       (scheduleRetry 0 noteB 0 (scheduleRetry 0 noteA 0 (startProcessing (Settings 0) initial)))"

definition vanishedEnv :: Env where
  "vanishedEnv =
     workingEnv\<lparr>e_now := 1500,
       e_getAbstractFileByPath :=
         (\<lambda>p. if p = ''notes/b.md'' then None else Some (File \<lparr>path = p, stat_mtime = 5\<rparr>))\<rparr>"

section \<open>Preservation of the invariants\<close>

lemma retryFrame_refl: "retryFrame st st"
  by (simp add: retryFrame_def)

lemma retryFrame_trans: "retryFrame a b \<Longrightarrow> retryFrame b c \<Longrightarrow> retryFrame a c"
  unfolding retryFrame_def
  by (erule ssubst, erule ssubst) simp

lemma retryFrame_upd:
  "retryFrame st (st\<lparr>retryTimer := t\<rparr>)" "retryFrame st (st\<lparr>retryState := r\<rparr>)"
  "retryFrame st (st\<lparr>console := c\<rparr>)"
  "retryFrame st (st\<lparr>console := c, retryState := r\<rparr>)"
  by (simp_all add: retryFrame_def)

lemma clearRetryTimer_frame: "retryFrame st (clearRetryTimer st)"
  by (simp add: retryFrame_def clearRetryTimer_def)

lemma clearRetryState_frame: "retryFrame st (clearRetryState st)"
  by (simp add: retryFrame_def clearRetryState_def clearRetryTimer_def)

lemma scheduleRetryTimer_frame: "retryFrame st (scheduleRetryTimer now s st)"
  by (simp add: retryFrame_def scheduleRetryTimer_def clearRetryTimer_def Let_def)

lemma clearRetryForPath_frame: "retryFrame st (clearRetryForPath now p st)"
  unfolding clearRetryForPath_def
  by (auto intro: retryFrame_refl retryFrame_trans [OF retryFrame_upd(2) scheduleRetryTimer_frame])

lemma scheduleRetry_frame: "retryFrame st (scheduleRetry now f s st)"
  unfolding scheduleRetry_def Let_def
  by (auto intro: retryFrame_refl retryFrame_trans [OF retryFrame_upd(2) scheduleRetryTimer_frame]
      retryFrame_trans [OF retryFrame_upd(4) scheduleRetryTimer_frame] split: option.splits)

lemma retryFrame_fields:
  assumes "retryFrame st st'"
  shows "queue st' = queue st" "isProcessing st' = isProcessing st"
    "abortController st' = abortController st" "queueDebounceTimer st' = queueDebounceTimer st"
    "currentBatchSettings st' = currentBatchSettings st" "processingFiles st' = processingFiles st"
    "queuedFiles st' = queuedFiles st"
    "dirtyFilesDuringProcessing st' = dirtyFilesDuringProcessing st"
    "stopped st' = stopped st" "processingSession st' = processingSession st"
    "aborted st' = aborted st" "controllers st' = controllers st" "inflight st' = inflight st"
    "pendingTicks st' = pendingTicks st" "dbWrites st' = dbWrites st"
proof -
  have e: "st' = st\<lparr>retryTimer := retryTimer st', retryState := retryState st', console := console st'\<rparr>"
    using assms by (simp add: retryFrame_def)
  show "queue st' = queue st" using arg_cong [OF e, of queue] by simp
  show "isProcessing st' = isProcessing st" using arg_cong [OF e, of isProcessing] by simp
  show "abortController st' = abortController st" using arg_cong [OF e, of abortController] by simp
  show "queueDebounceTimer st' = queueDebounceTimer st" using arg_cong [OF e, of queueDebounceTimer] by simp
  show "currentBatchSettings st' = currentBatchSettings st" using arg_cong [OF e, of currentBatchSettings] by simp
  show "processingFiles st' = processingFiles st" using arg_cong [OF e, of processingFiles] by simp
  show "queuedFiles st' = queuedFiles st" using arg_cong [OF e, of queuedFiles] by simp
  show "dirtyFilesDuringProcessing st' = dirtyFilesDuringProcessing st"
    using arg_cong [OF e, of dirtyFilesDuringProcessing] by simp
  show "stopped st' = stopped st" using arg_cong [OF e, of stopped] by simp
  show "processingSession st' = processingSession st" using arg_cong [OF e, of processingSession] by simp
  show "aborted st' = aborted st" using arg_cong [OF e, of aborted] by simp
  show "controllers st' = controllers st" using arg_cong [OF e, of controllers] by simp
  show "inflight st' = inflight st" using arg_cong [OF e, of inflight] by simp
  show "pendingTicks st' = pendingTicks st" using arg_cong [OF e, of pendingTicks] by simp
  show "dbWrites st' = dbWrites st" using arg_cong [OF e, of dbWrites] by simp
qed


lemma mkJob_path [simp]: "path (job_file (mkJob f)) = path f"
  by (simp add: mkJob_def)

lemma queueLoop_fields:
  "queueLoop fs st nj = (st', nj') \<Longrightarrow>
     queue st' = queue st \<and> processingFiles st' = processingFiles st
     \<and> stopped st' = stopped st \<and> isProcessing st' = isProcessing st
     \<and> queueDebounceTimer st' = queueDebounceTimer st
     \<and> currentBatchSettings st' = currentBatchSettings st
     \<and> processingSession st' = processingSession st \<and> aborted st' = aborted st
     \<and> controllers st' = controllers st \<and> inflight st' = inflight st
     \<and> abortController st' = abortController st \<and> dbWrites st' = dbWrites st
     \<and> retryState st' = retryState st \<and> retryTimer st' = retryTimer st
     \<and> console st' = console st \<and> pendingTicks st' = pendingTicks st"
proof (induction fs arbitrary: st nj)
  case Nil
  then show ?case by simp
next
  case (Cons f fs)
  show ?case
  proof (cases "path f \<in> processingFiles st")
    case True
    with Cons.prems Cons.IH [of "st\<lparr>dirtyFilesDuringProcessing :=
        AList.update (path f) f (dirtyFilesDuringProcessing st)\<rparr>" nj]
    show ?thesis by (simp add: Let_def)
  next
    case False
    show ?thesis
    proof (cases "path f \<in> queuedFiles st")
      case True
      with False Cons.prems Cons.IH [of st nj] show ?thesis by (simp add: Let_def)
    next
      case notq: False
      with False Cons.prems
        Cons.IH [of "st\<lparr>queuedFiles := insert (path f) (queuedFiles st)\<rparr>" "nj @ [mkJob f]"]
      show ?thesis by (simp add: Let_def)
    qed
  qed
qed

lemma queueLoop_queue_inv:
  "queueLoop fs st nj = (st', nj') \<Longrightarrow>
   distinct (map (\<lambda>j. path (job_file j)) (queue st @ nj)) \<Longrightarrow>
   set (map (\<lambda>j. path (job_file j)) (queue st @ nj)) = queuedFiles st \<Longrightarrow>
   distinct (map (\<lambda>j. path (job_file j)) (queue st @ nj'))
   \<and> set (map (\<lambda>j. path (job_file j)) (queue st @ nj')) = queuedFiles st'"
proof (induction fs arbitrary: st nj)
  case Nil
  then show ?case by simp
next
  case (Cons f fs)
  show ?case
  proof (cases "path f \<in> processingFiles st")
    case True
    with Cons.prems Cons.IH [of "st\<lparr>dirtyFilesDuringProcessing :=
        AList.update (path f) f (dirtyFilesDuringProcessing st)\<rparr>" nj]
    show ?thesis by (simp add: Let_def)
  next
    case False
    show ?thesis
    proof (cases "path f \<in> queuedFiles st")
      case True
      with False Cons.prems Cons.IH [of st nj] show ?thesis by (simp add: Let_def)
    next
      case notq: False
      have d: "distinct (map (\<lambda>j. path (job_file j)) (queue st @ nj @ [mkJob f]))"
        using Cons.prems(2,3) notq by auto
      have e: "set (map (\<lambda>j. path (job_file j)) (queue st @ nj @ [mkJob f]))
                 = insert (path f) (queuedFiles st)"
        using Cons.prems(3) by auto
      from False notq Cons.prems(1)
        Cons.IH [of "st\<lparr>queuedFiles := insert (path f) (queuedFiles st)\<rparr>" "nj @ [mkJob f]"] d e
      show ?thesis by (simp add: Let_def)
    qed
  qed
qed

lemma queueLoop_tracking_inv:
  "queueLoop fs st nj = (st', nj') \<Longrightarrow> tracking_inv st \<Longrightarrow> tracking_inv st'"
proof (induction fs arbitrary: st nj)
  case Nil
  then show ?case by simp
next
  case (Cons f fs)
  show ?case
  proof (cases "path f \<in> processingFiles st")
    case True
    have "tracking_inv (st\<lparr>dirtyFilesDuringProcessing :=
        AList.update (path f) f (dirtyFilesDuringProcessing st)\<rparr>)"
      using Cons.prems(2) True by (auto simp: tracking_inv_def dom_update)
    with True Cons.prems(1) Cons.IH [of "st\<lparr>dirtyFilesDuringProcessing :=
        AList.update (path f) f (dirtyFilesDuringProcessing st)\<rparr>" nj]
    show ?thesis by (simp add: Let_def)
  next
    case False
    show ?thesis
    proof (cases "path f \<in> queuedFiles st")
      case True
      with False Cons.prems Cons.IH [of st nj] show ?thesis by (simp add: Let_def)
    next
      case notq: False
      have "tracking_inv (st\<lparr>queuedFiles := insert (path f) (queuedFiles st)\<rparr>)"
        using Cons.prems(2) False by (auto simp: tracking_inv_def)
      with False notq Cons.prems(1)
        Cons.IH [of "st\<lparr>queuedFiles := insert (path f) (queuedFiles st)\<rparr>" "nj @ [mkJob f]"]
      show ?thesis by (simp add: Let_def)
    qed
  qed
qed

lemma startProcessing_queue_inv: "queue_inv (startProcessing s st) = queue_inv st"
  by (simp add: queue_inv_def startProcessing_def)

lemma startProcessing_tracking_inv: "tracking_inv (startProcessing s st) = tracking_inv st"
  by (simp add: tracking_inv_def startProcessing_def)

lemma queueFiles_queue_inv: "queue_inv st \<Longrightarrow> queue_inv (queueFiles fs st)"
proof -
  assume inv: "queue_inv st"
  obtain st1 nj where ql: "queueLoop fs st [] = (st1, nj)" by (cases "queueLoop fs st []")
  from queueLoop_queue_inv [OF ql] inv
  have a: "distinct (map (\<lambda>j. path (job_file j)) (queue st @ nj))"
    "set (map (\<lambda>j. path (job_file j)) (queue st @ nj)) = queuedFiles st1"
    by (simp_all add: queue_inv_def)
  from queueLoop_fields [OF ql] have q: "queue st1 = queue st" by simp
  have b: "queue_inv (st1\<lparr>queue := queue st1 @ nj\<rparr>)"
    using a q by (simp add: queue_inv_def)
  have c: "nj = [] \<Longrightarrow> queue_inv st1" using a q by (simp add: queue_inv_def)
  show ?thesis
    using ql inv b c
    by (simp add: queueFiles_def Let_def startProcessing_queue_inv split: option.splits)
qed

lemma queueFiles_tracking_inv: "tracking_inv st \<Longrightarrow> tracking_inv (queueFiles fs st)"
proof -
  assume inv: "tracking_inv st"
  obtain st1 nj where ql: "queueLoop fs st [] = (st1, nj)" by (cases "queueLoop fs st []")
  from queueLoop_tracking_inv [OF ql inv] have a: "tracking_inv st1" .
  then have b: "tracking_inv (st1\<lparr>queue := queue st1 @ nj\<rparr>)"
    by (simp add: tracking_inv_def)
  show ?thesis
    using ql inv a b
    by (simp add: queueFiles_def Let_def startProcessing_tracking_inv split: option.splits)
qed


lemma core_inv_cong: "core st' = core st \<Longrightarrow> core_inv st' = core_inv st"
  by (simp add: core_def core_inv_def queue_inv_def tracking_inv_def dirty_wf_def stopped_inv_def)

lemma core_inv_eqI:
  assumes "core_inv st" "core st' = core st"
  shows "core_inv st'"
  using core_inv_cong [OF assms(2)] assms(1) by simp

lemma session_inv_cong: "ctl st' = ctl st \<Longrightarrow> session_inv st' = session_inv st"
  by (simp add: ctl_def session_inv_def batch_ok_def)

lemma retryFrame_core: "retryFrame st st' \<Longrightarrow> core st' = core st"
  by (simp add: core_def retryFrame_fields)

lemma retryFrame_ctl: "retryFrame st st' \<Longrightarrow> ctl st' = ctl st"
  by (simp add: ctl_def retryFrame_fields)

lemma alist_update_subset: "set (AList.update k v al) \<subseteq> insert (k, v) (set al)"
  by (induct al) auto

lemma ctl_fields:
  assumes "ctl st' = ctl st"
  shows "inflight st' = inflight st" "processingSession st' = processingSession st"
    "stopped st' = stopped st" "aborted st' = aborted st" "controllers st' = controllers st"
    "abortController st' = abortController st" "dbWrites st' = dbWrites st"
  using assms by (simp_all add: ctl_def)

lemma queueLoop_dirty_wf:
  "queueLoop fs st nj = (st', nj') \<Longrightarrow> dirty_wf st \<Longrightarrow> dirty_wf st'"
proof (induction fs arbitrary: st nj)
  case Nil
  then show ?case by simp
next
  case (Cons f fs)
  show ?case
  proof (cases "path f \<in> processingFiles st")
    case True
    have "dirty_wf (st\<lparr>dirtyFilesDuringProcessing :=
        AList.update (path f) f (dirtyFilesDuringProcessing st)\<rparr>)"
      using Cons.prems(2) alist_update_subset [of "path f" f "dirtyFilesDuringProcessing st"]
      by (auto simp: dirty_wf_def distinct_update)
    with True Cons.prems(1) Cons.IH [of "st\<lparr>dirtyFilesDuringProcessing :=
        AList.update (path f) f (dirtyFilesDuringProcessing st)\<rparr>" nj]
    show ?thesis by (simp add: Let_def)
  next
    case False
    show ?thesis
    proof (cases "path f \<in> queuedFiles st")
      case True
      with False Cons.prems Cons.IH [of st nj] show ?thesis by (simp add: Let_def)
    next
      case notq: False
      have "dirty_wf (st\<lparr>queuedFiles := insert (path f) (queuedFiles st)\<rparr>)"
        using Cons.prems(2) by (simp add: dirty_wf_def)
      with False notq Cons.prems(1)
        Cons.IH [of "st\<lparr>queuedFiles := insert (path f) (queuedFiles st)\<rparr>" "nj @ [mkJob f]"]
      show ?thesis by (simp add: Let_def)
    qed
  qed
qed

lemma queueFiles_ctl: "ctl (queueFiles fs st) = ctl st"
proof -
  obtain st1 nj where ql: "queueLoop fs st [] = (st1, nj)" by (cases "queueLoop fs st []")
  from queueLoop_fields [OF ql] show ?thesis
    using ql by (auto simp: queueFiles_def ctl_def Let_def startProcessing_def split: option.splits)
qed

lemma queueFiles_stopped: "stopped (queueFiles fs st) = stopped st"
  using queueFiles_ctl [of fs st] by (simp add: ctl_def)

lemma queueFiles_dirty_wf: "dirty_wf st \<Longrightarrow> dirty_wf (queueFiles fs st)"
proof -
  assume inv: "dirty_wf st"
  obtain st1 nj where ql: "queueLoop fs st [] = (st1, nj)" by (cases "queueLoop fs st []")
  from queueLoop_dirty_wf [OF ql inv] have a: "dirty_wf st1" .
  then have b: "dirty_wf (st1\<lparr>queue := queue st1 @ nj\<rparr>)"
    by (simp add: dirty_wf_def)
  show ?thesis
    using ql inv a b
    by (auto simp: queueFiles_def Let_def startProcessing_def dirty_wf_def split: option.splits)
qed

lemma queueFiles_stopped_inv: "stopped_inv st \<Longrightarrow> stopped_inv (queueFiles fs st)"
proof (cases "stopped st")
  case True
  assume "stopped_inv st"
  with True show ?thesis by (simp add: queueFiles_def)
next
  case False
  then have "\<not> stopped (queueFiles fs st)" by (simp add: queueFiles_stopped)
  then show ?thesis by (simp add: stopped_inv_def)
qed

lemma queueFiles_core_inv: "core_inv st \<Longrightarrow> core_inv (queueFiles fs st)"
  by (simp add: core_inv_def queueFiles_queue_inv queueFiles_tracking_inv queueFiles_dirty_wf
      queueFiles_stopped_inv)

lemma startProcessing_core_inv: "core_inv st \<Longrightarrow> core_inv (startProcessing s st)"
  by (simp add: core_inv_def queue_inv_def tracking_inv_def dirty_wf_def stopped_inv_def
      startProcessing_def)

lemma stopProcessing_core_inv: "core_inv (stopProcessing st)"
  by (simp add: core_inv_def queue_inv_def tracking_inv_def dirty_wf_def stopped_inv_def
      stopProcessing_def clearRetryState_def clearRetryTimer_def Let_def split: option.splits)

lemma finallyBlock_core_inv:
  assumes inv: "core_inv st"
  shows "core_inv (finallyBlock b st)"
proof -
  let ?X = "set (map ajPath (b_activeJobs b))"
  have cleared: "core_inv (st\<lparr>processingFiles := processingFiles st - ?X,
                              dirtyFilesDuringProcessing := []\<rparr>)"
    using inv
    by (auto simp: core_inv_def queue_inv_def tracking_inv_def dirty_wf_def stopped_inv_def)
  have flags: "\<And>s p. core_inv (s\<lparr>isProcessing := False\<rparr>) = core_inv s"
    "\<And>s n. core_inv (s\<lparr>isProcessing := False, pendingTicks := n\<rparr>) = core_inv s"
    by (rule core_inv_cong, simp add: core_def)+
  show ?thesis
  proof (cases "processingSession st = b_session b")
    case False
    with inv show ?thesis by (simp add: finallyBlock_def Let_def flags)
  next
    case True
    show ?thesis
    proof (cases "\<not> stopped st \<and> b_abortSignal b \<notin> aborted st")
      case False
      with True cleared show ?thesis by (auto simp: finallyBlock_def Let_def flags)
    next
      case act: True
      from queueFiles_core_inv [OF cleared]
      have "core_inv (queueFiles (map snd (dirtyFilesDuringProcessing st))
              (st\<lparr>processingFiles := processingFiles st - ?X,
                  dirtyFilesDuringProcessing := []\<rparr>))" .
      with True act cleared show ?thesis by (simp add: finallyBlock_def Let_def flags)
    qed
  qed
qed

lemma finallyBlock_ctl: "ctl (finallyBlock b st) = ctl st"
proof -
  have "\<And>fs s. ctl (queueFiles fs s) = ctl s" by (rule queueFiles_ctl)
  note q = ctl_fields [OF this]
  show ?thesis by (simp add: finallyBlock_def Let_def ctl_def q)
qed


lemma wrote_ctl: "ctl st' = ctl st \<Longrightarrow> wrote st st'"
  unfolding wrote_def by (rule exI [of _ "[]"]) (simp add: ctl_def)

lemma handleResult_frame:
  "handleResult now r (st, b) = (st', b') \<Longrightarrow> retryFrame st st' \<and> same_batch b b'"
  by (auto simp: handleResult_def Let_def same_batch_def retryFrame_refl scheduleRetry_frame
      clearRetryForPath_frame split: if_splits option.splits)

lemma foldl_handleResult_frame:
  "foldl (\<lambda>sb r. handleResult now r sb) (st, b) rs = (st', b') \<Longrightarrow>
     retryFrame st st' \<and> same_batch b b'"
proof (induction rs arbitrary: st b)
  case Nil
  then show ?case by (simp add: retryFrame_refl same_batch_def)
next
  case (Cons r rs)
  obtain st1 b1 where h: "handleResult now r (st, b) = (st1, b1)"
    by (cases "handleResult now r (st, b)")
  from handleResult_frame [OF h] have a: "retryFrame st st1" "same_batch b b1" by simp_all
  from Cons.prems h have "foldl (\<lambda>sb r. handleResult now r sb) (st1, b1) rs = (st', b')"
    by simp
  from Cons.IH [OF this] have c: "retryFrame st1 st'" "same_batch b1 b'" by simp_all
  from a c show ?case by (auto intro: retryFrame_trans simp: same_batch_def)
qed

lemma afterLoop_core_inv:
  "afterLoop env b st = (st', bo) \<Longrightarrow> core_inv st \<Longrightarrow> core_inv st'"
proof -
  assume a: "afterLoop env b st = (st', bo)" and inv: "core_inv st"
  have w: "\<And>x. core_inv (st\<lparr>dbWrites := x\<rparr>)"
    by (rule core_inv_eqI [OF inv]) (simp add: core_def)
  from a inv w finallyBlock_core_inv [OF inv, of b] show ?thesis
    by (auto simp: afterLoop_def split: if_splits)
qed

lemma afterLoop_wrote:
  "afterLoop env b st = (st', bo) \<Longrightarrow> wrote st st' \<and> (\<forall>b' \<in> set_option bo. same_batch b b')"
proof -
  assume a: "afterLoop env b st = (st', bo)"
  show ?thesis
  proof (cases "\<not> cancelled b st \<and> (b_updates b \<noteq> [] \<or> b_processedMtimeUpdates b \<noteq> [])
                 \<and> \<not> e_isShutdownInProgress env")
    case True
    with a have e: "st' = st\<lparr>dbWrites := dbWrites st @
                 [\<lparr>w_session = b_session b, w_contentUpdates = b_updates b,
                   w_processedMtimeUpdates = b_processedMtimeUpdates b\<rparr>]\<rparr>"
      and bo: "bo = Some (b\<lparr>b_phase := AwaitWrite\<rparr>)"
      by (auto simp: afterLoop_def)
    from True have s: "b_session b = processingSession st" by (simp add: cancelled_def)
    have "wrote st st'"
      unfolding wrote_def e
      by (rule exI [of _ "[\<lparr>w_session = b_session b, w_contentUpdates = b_updates b,
                   w_processedMtimeUpdates = b_processedMtimeUpdates b\<rparr>]"]) (simp add: s)
    with bo show ?thesis by (simp add: same_batch_def)
  next
    case False
    with a have "st' = finallyBlock b st" "bo = None" by (auto simp: afterLoop_def split: if_splits)
    then show ?thesis by (simp add: wrote_ctl finallyBlock_ctl)
  qed
qed

lemma loopHead_core_inv:
  "loopHead env b i st = (st', bo) \<Longrightarrow> core_inv st \<Longrightarrow> core_inv st'"
  by (auto simp: loopHead_def afterLoop_core_inv split: if_splits)

lemma loopHead_wrote:
  "loopHead env b i st = (st', bo) \<Longrightarrow> wrote st st' \<and> (\<forall>b' \<in> set_option bo. same_batch b b')"
proof (cases "i < length (b_activeJobs b) \<and> \<not> cancelled b st")
  case True
  assume "loopHead env b i st = (st', bo)"
  with True have "st' = st" "bo = Some (b\<lparr>b_phase := AwaitChunk i\<rparr>)"
    by (auto simp: loopHead_def)
  then show ?thesis by (simp add: wrote_ctl same_batch_def)
next
  case False
  assume "loopHead env b i st = (st', bo)"
  with False have "afterLoop env b st = (st', bo)" by (auto simp: loopHead_def)
  then show ?thesis by (rule afterLoop_wrote)
qed


lemma drop_take_paths:
  "distinct (map f xs) \<Longrightarrow> set (map f (drop n xs)) = set (map f xs) - set (map f (take n xs))"
proof -
  assume d: "distinct (map f xs)"
  have "map f xs = map f (take n xs) @ map f (drop n xs)"
    by (simp flip: map_append)
  with d have "distinct (map f (take n xs) @ map f (drop n xs))" by simp
  then have dis: "set (map f (take n xs)) \<inter> set (map f (drop n xs)) = {}" by simp
  have "set (map f xs) = set (map f (take n xs)) \<union> set (map f (drop n xs))"
    by (metis append_take_drop_id map_append set_append)
  with dis show ?thesis by auto
qed

lemma ajPath_mkActiveJob [simp]: "ajPath (mkActiveJob env s j) = path (job_file j)"
  by (simp add: ajPath_def mkActiveJob_def Let_def)

lemma processNextBatch_cases:
  obtains (idle) "processNextBatch env st = (st, None)"
  | (start) settings where
      "\<not> stopped st" "\<not> isProcessing st" "queue st \<noteq> []"
      "currentBatchSettings st = Some settings"
      "processNextBatch env st =
        (let A = filter aj_needsProcessing
                   (map (mkActiveJob env settings) (take QUEUE_BATCH_SIZE (queue st)));
             st2 = st\<lparr>isProcessing := True, abortController := Some (controllers st),
                      controllers := controllers st + 1,
                      queue := drop QUEUE_BATCH_SIZE (queue st),
                      queuedFiles := queuedFiles st
                        - set (map (\<lambda>j. path (job_file j)) (take QUEUE_BATCH_SIZE (queue st)))\<rparr>;
             b = \<lparr>b_session = processingSession st, b_abortSignal = controllers st,
                  b_settings = settings, b_activeJobs = A, b_updates = [],
                  b_processedMtimeUpdates = [], b_phase = AwaitChunk 0\<rparr>
         in if A = [] then (finallyBlock b st2, None)
            else loopHead env b 0
                   (st2\<lparr>processingFiles := processingFiles st2 \<union> set (map ajPath A)\<rparr>))"
proof (cases "stopped st \<or> isProcessing st \<or> queue st = [] \<or> currentBatchSettings st = None")
  case True
  then have "processNextBatch env st = (st, None)"
    by (auto simp: processNextBatch_def)
  then show ?thesis by (rule idle)
next
  case False
  then obtain settings where s: "currentBatchSettings st = Some settings" by auto
  show ?thesis
    by (rule start [of settings]) (use False s in \<open>simp_all add: processNextBatch_def Let_def\<close>)
qed

lemma processNextBatch_core_inv:
  assumes p: "processNextBatch env st = (st', bo)" and inv: "core_inv st"
  shows "core_inv st'"
proof (cases env st rule: processNextBatch_cases)
  case idle
  with p inv show ?thesis by simp
next
  case (start settings)
  define A where "A = filter aj_needsProcessing
                   (map (mkActiveJob env settings) (take QUEUE_BATCH_SIZE (queue st)))"
  define st2 where "st2 = st\<lparr>isProcessing := True, abortController := Some (controllers st),
                      controllers := controllers st + 1,
                      queue := drop QUEUE_BATCH_SIZE (queue st),
                      queuedFiles := queuedFiles st
                        - set (map (\<lambda>j. path (job_file j)) (take QUEUE_BATCH_SIZE (queue st)))\<rparr>"
  define b where "b = \<lparr>b_session = processingSession st, b_abortSignal = controllers st,
                  b_settings = settings, b_activeJobs = A, b_updates = [],
                  b_processedMtimeUpdates = [], b_phase = AwaitChunk 0\<rparr>"
  from start(5) p have r: "(st', bo) = (if A = [] then (finallyBlock b st2, None)
            else loopHead env b 0
                   (st2\<lparr>processingFiles := processingFiles st2 \<union> set (map ajPath A)\<rparr>))"
    by (simp add: Let_def A_def st2_def b_def)
  from inv have d: "distinct (map (\<lambda>j. path (job_file j)) (queue st))"
    and q: "set (map (\<lambda>j. path (job_file j)) (queue st)) = queuedFiles st"
    by (simp_all add: core_inv_def queue_inv_def)
  have dd: "distinct (map (\<lambda>j. path (job_file j)) (drop QUEUE_BATCH_SIZE (queue st)))"
    using d by (metis distinct_drop drop_map)
  have c2: "core_inv st2"
    using inv start(1) drop_take_paths [OF d, of QUEUE_BATCH_SIZE] q dd
    by (auto simp: core_inv_def queue_inv_def tracking_inv_def dirty_wf_def stopped_inv_def
        st2_def)
  have sub: "set (map ajPath A) \<subseteq> set (map (\<lambda>j. path (job_file j)) (take QUEUE_BATCH_SIZE (queue st)))"
    by (auto simp: A_def)
  have c3: "core_inv (st2\<lparr>processingFiles := processingFiles st2 \<union> set (map ajPath A)\<rparr>)"
    using c2 sub start(1)
    by (auto simp: core_inv_def queue_inv_def tracking_inv_def dirty_wf_def stopped_inv_def
        st2_def)
  show ?thesis
  proof (cases "A = []")
    case True
    with r have "st' = finallyBlock b st2" by simp
    with c2 show ?thesis by (simp add: finallyBlock_core_inv)
  next
    case False
    with r have "loopHead env b 0
        (st2\<lparr>processingFiles := processingFiles st2 \<union> set (map ajPath A)\<rparr>) = (st', bo)"
      by simp
    from loopHead_core_inv [OF this c3] show ?thesis .
  qed
qed

lemma wrote_fields:
  assumes "wrote st st'"
  shows "inflight st' = inflight st" "processingSession st' = processingSession st"
    "stopped st' = stopped st" "aborted st' = aborted st" "controllers st' = controllers st"
    "abortController st' = abortController st"
  using assms by (auto simp: wrote_def ctl_def)

lemma wrote_session_inv: "wrote st st' \<Longrightarrow> session_inv st' = session_inv st"
  by (simp add: session_inv_def batch_ok_def wrote_fields)

lemma wrote_batch_ok: "wrote st st' \<Longrightarrow> same_batch b b' \<Longrightarrow> batch_ok st' b' = batch_ok st b"
  by (simp add: batch_ok_def wrote_fields same_batch_def)

lemma session_inv_add:
  "session_inv st \<Longrightarrow> batch_ok st b \<Longrightarrow> session_inv (st\<lparr>inflight := inflight st @ [b]\<rparr>)"
  by (auto simp: session_inv_def batch_ok_def)

lemma settle_session_inv:
  "session_inv st \<Longrightarrow> (\<forall>b \<in> set_option bo. batch_ok st b) \<Longrightarrow> session_inv (settle (st, bo))"
  by (cases bo) (simp_all add: settle_def session_inv_add)

lemma settle_core_inv: "core_inv st \<Longrightarrow> core_inv (settle (st, bo))"
  by (cases bo) (auto simp: settle_def intro: core_inv_eqI simp: core_def)

lemma resumeBatch_core_inv:
  assumes r: "resumeBatch env b st = (st', bo)" and inv: "core_inv st"
  shows "core_inv st'"
proof (cases "b_phase b")
  case (AwaitChunk i)
  let ?ran = "map (runJob env (b_settings b)) (take PARALLEL_LIMIT (drop i (b_activeJobs b)))"
  let ?st1 = "st\<lparr>console := console st @ concat (map snd ?ran)\<rparr>"
  obtain st2 b2 where f: "foldl (\<lambda>sb r. handleResult (e_now env) r sb) (?st1, b) (map fst ?ran)
                            = (st2, b2)"
    by (cases "foldl (\<lambda>sb r. handleResult (e_now env) r sb) (?st1, b) (map fst ?ran)")
  from r AwaitChunk f have "st' = st2" by (simp add: resumeBatch_def Let_def)
  moreover from foldl_handleResult_frame [OF f] have "core st2 = core ?st1"
    by (simp add: retryFrame_core)
  moreover have "core ?st1 = core st" by (simp add: core_def)
  ultimately show ?thesis using inv by (auto intro: core_inv_eqI)
next
  case (AwaitYield i)
  with r have "loopHead env b (i + PARALLEL_LIMIT) st = (st', bo)" by (simp add: resumeBatch_def)
  from loopHead_core_inv [OF this inv] show ?thesis .
next
  case AwaitWrite
  have c: "core_inv (st\<lparr>console := console st @ [BatchError]\<rparr>)"
    by (rule core_inv_eqI [OF inv]) (simp add: core_def)
  from r AwaitWrite inv c show ?thesis
    by (auto simp: resumeBatch_def finallyBlock_core_inv split: WriteOutcome.splits if_splits)
qed

lemma wrote_trans: "wrote a b \<Longrightarrow> wrote b c \<Longrightarrow> wrote a c"
proof -
  assume ab: "wrote a b" and bc: "wrote b c"
  from ab obtain ws where 1: "ctl b = ctl (a\<lparr>dbWrites := dbWrites a @ ws\<rparr>)"
    "\<forall>w \<in> set ws. w_session w = processingSession a" by (auto simp: wrote_def)
  from bc obtain ws' where 2: "ctl c = ctl (b\<lparr>dbWrites := dbWrites b @ ws'\<rparr>)"
    "\<forall>w \<in> set ws'. w_session w = processingSession b" by (auto simp: wrote_def)
  from 1 2 have "ctl c = ctl (a\<lparr>dbWrites := dbWrites a @ (ws @ ws')\<rparr>)"
    by (simp add: ctl_def)
  moreover from 1 2 have "\<forall>w \<in> set (ws @ ws'). w_session w = processingSession a"
    by (auto simp: ctl_def)
  ultimately show ?thesis unfolding wrote_def by blast
qed

lemma resumeBatch_wrote:
  assumes r: "resumeBatch env b st = (st', bo)"
  shows "wrote st st' \<and> (\<forall>b' \<in> set_option bo. same_batch b b')"
proof (cases "b_phase b")
  case (AwaitChunk i)
  let ?ran = "map (runJob env (b_settings b)) (take PARALLEL_LIMIT (drop i (b_activeJobs b)))"
  let ?st1 = "st\<lparr>console := console st @ concat (map snd ?ran)\<rparr>"
  obtain st2 b2 where f: "foldl (\<lambda>sb r. handleResult (e_now env) r sb) (?st1, b) (map fst ?ran)
                            = (st2, b2)"
    by (cases "foldl (\<lambda>sb r. handleResult (e_now env) r sb) (?st1, b) (map fst ?ran)")
  from r AwaitChunk f have e: "st' = st2" "bo = Some (b2\<lparr>b_phase := AwaitYield i\<rparr>)"
    by (simp_all add: resumeBatch_def Let_def)
  from foldl_handleResult_frame [OF f] have fr: "ctl st2 = ctl ?st1" "same_batch b b2"
    by (simp_all add: retryFrame_ctl)
  have "ctl ?st1 = ctl st" by (simp add: ctl_def)
  with fr e have "wrote st st'" by (simp add: wrote_ctl)
  with e fr show ?thesis by (simp add: same_batch_def)
next
  case (AwaitYield i)
  with r have "loopHead env b (i + PARALLEL_LIMIT) st = (st', bo)" by (simp add: resumeBatch_def)
  from loopHead_wrote [OF this] show ?thesis .
next
  case AwaitWrite
  have "ctl (finallyBlock b (st\<lparr>console := console st @ [BatchError]\<rparr>)) = ctl st"
    by (simp add: finallyBlock_ctl) (simp add: ctl_def)
  with r AwaitWrite show ?thesis
    by (auto simp: resumeBatch_def wrote_ctl finallyBlock_ctl split: WriteOutcome.splits if_splits)
qed

lemma processNextBatch_wrote:
  assumes p: "processNextBatch env st = (st', bo)"
  shows "wrote (st\<lparr>controllers := controllers st', abortController := abortController st'\<rparr>) st'"
    and "controllers st \<le> controllers st'"
    and "\<forall>c \<in> set_option (abortController st'). c \<in> set_option (abortController st) \<or> c < controllers st'"
    and "\<forall>b \<in> set_option bo. b_session b = processingSession st \<and> b_abortSignal b = controllers st
            \<and> controllers st' = controllers st + 1 \<and> \<not> stopped st"
proof -
  have "wrote (st\<lparr>controllers := controllers st', abortController := abortController st'\<rparr>) st'
    \<and> controllers st \<le> controllers st'
    \<and> (\<forall>c \<in> set_option (abortController st'). c \<in> set_option (abortController st) \<or> c < controllers st')
    \<and> (\<forall>b \<in> set_option bo. b_session b = processingSession st \<and> b_abortSignal b = controllers st
            \<and> controllers st' = controllers st + 1 \<and> \<not> stopped st)"
  proof (cases env st rule: processNextBatch_cases)
    case idle
    with p have "st' = st" "bo = None" by simp_all
    then show ?thesis by (simp add: wrote_ctl)
  next
    case (start settings)
    define A where "A = filter aj_needsProcessing
                     (map (mkActiveJob env settings) (take QUEUE_BATCH_SIZE (queue st)))"
    define st2 where "st2 = st\<lparr>isProcessing := True, abortController := Some (controllers st),
                        controllers := controllers st + 1,
                        queue := drop QUEUE_BATCH_SIZE (queue st),
                        queuedFiles := queuedFiles st
                          - set (map (\<lambda>j. path (job_file j)) (take QUEUE_BATCH_SIZE (queue st)))\<rparr>"
    define st3 where "st3 = st2\<lparr>processingFiles := processingFiles st2 \<union> set (map ajPath A)\<rparr>"
    define b where "b = \<lparr>b_session = processingSession st, b_abortSignal = controllers st,
                    b_settings = settings, b_activeJobs = A, b_updates = [],
                    b_processedMtimeUpdates = [], b_phase = AwaitChunk 0\<rparr>"
    from start(5) p have r: "(st', bo) = (if A = [] then (finallyBlock b st2, None)
              else loopHead env b 0 st3)"
      by (simp add: Let_def A_def st2_def b_def st3_def)
    have w: "wrote st3 st' \<and> (\<forall>b' \<in> set_option bo. same_batch b b')"
    proof (cases "A = []")
      case True
      with r have "st' = finallyBlock b st2" "bo = None" by simp_all
      moreover have "ctl st3 = ctl st2" by (simp add: st3_def ctl_def)
      ultimately show ?thesis by (simp add: wrote_ctl finallyBlock_ctl)
    next
      case False
      with r have "loopHead env b 0 st3 = (st', bo)" by simp
      from loopHead_wrote [OF this] show ?thesis .
    qed
    from w have f: "controllers st' = controllers st3" "abortController st' = abortController st3"
      by (simp_all add: wrote_fields)
    have c3: "controllers st3 = controllers st + 1" "abortController st3 = Some (controllers st)"
      by (simp_all add: st3_def st2_def)
    have "ctl (st\<lparr>controllers := controllers st', abortController := abortController st'\<rparr>)
            = ctl st3"
      by (simp add: f c3) (simp add: ctl_def st3_def st2_def)
    then have "wrote (st\<lparr>controllers := controllers st', abortController := abortController st'\<rparr>) st3"
      by (simp add: wrote_ctl)
    with w have "wrote (st\<lparr>controllers := controllers st', abortController := abortController st'\<rparr>) st'"
      by (blast intro: wrote_trans)
    moreover from w have "\<forall>b' \<in> set_option bo. b_session b' = processingSession st \<and> b_abortSignal b' = controllers st"
      by (auto simp: same_batch_def b_def)
    ultimately show ?thesis using f c3 start(1) by auto
  qed
  then show "wrote (st\<lparr>controllers := controllers st', abortController := abortController st'\<rparr>) st'"
    and "controllers st \<le> controllers st'"
    and "\<forall>c \<in> set_option (abortController st'). c \<in> set_option (abortController st) \<or> c < controllers st'"
    and "\<forall>b \<in> set_option bo. b_session b = processingSession st \<and> b_abortSignal b = controllers st
            \<and> controllers st' = controllers st + 1 \<and> \<not> stopped st"
    by blast+
qed


lemma runProcessNextBatch_session_inv:
  assumes inv: "session_inv st"
  shows "session_inv (runProcessNextBatch env st)"
proof -
  obtain st' bo where p: "processNextBatch env st = (st', bo)"
    by (cases "processNextBatch env st")
  let ?st0 = "st\<lparr>controllers := controllers st', abortController := abortController st'\<rparr>"
  note w = processNextBatch_wrote [OF p]
  have inv0: "session_inv ?st0"
    using inv w(2,3) by (fastforce simp: session_inv_def batch_ok_def)
  with w(1) have inv': "session_inv st'" by (simp add: wrote_session_inv)
  have f: "processingSession st' = processingSession st" "stopped st' = stopped st"
    "aborted st' = aborted st"
    using wrote_fields [OF w(1)] by simp_all
  have "\<forall>b \<in> set_option bo. batch_ok st' b"
    using w(4) inv f by (fastforce simp: batch_ok_def session_inv_def)
  with inv' have "session_inv (settle (st', bo))" by (rule settle_session_inv)
  with p show ?thesis by (simp add: runProcessNextBatch_def)
qed

lemma runProcessNextBatch_core_inv:
  assumes inv: "core_inv st"
  shows "core_inv (runProcessNextBatch env st)"
proof -
  obtain st' bo where p: "processNextBatch env st = (st', bo)"
    by (cases "processNextBatch env st")
  from processNextBatch_core_inv [OF p inv] have "core_inv (settle (st', bo))"
    by (rule settle_core_inv)
  with p show ?thesis by (simp add: runProcessNextBatch_def)
qed

lemma flushLoop_frame:
  "flushLoop env now es st acc = (st', acc') \<Longrightarrow> retryFrame st st'"
proof (induction es arbitrary: st acc)
  case Nil
  then show ?case by (simp add: retryFrame_refl)
next
  case (Cons pe es)
  obtain p e where pe: "pe = (p, e)" by (cases pe)
  show ?case
  proof (cases "nextRetryAt e > now")
    case True
    with Cons.prems pe have "flushLoop env now es st acc = (st', acc')" by simp
    then show ?thesis by (rule Cons.IH)
  next
    case False
    show ?thesis
    proof (cases "e_getAbstractFileByPath env p")
      case None
      with False Cons.prems pe
      have "flushLoop env now es (st\<lparr>retryState := AList.delete p (retryState st)\<rparr>) acc
              = (st', acc')" by simp
      from Cons.IH [OF this] show ?thesis
        by (rule retryFrame_trans [OF retryFrame_upd(2)])
    next
      case (Some a)
      show ?thesis
      proof (cases a)
        case (File f)
        with Some False Cons.prems pe
        have "flushLoop env now es
                (st\<lparr>retryState := AList.update p (e\<lparr>nextRetryAt := RETRY_UNSCHEDULED_AT\<rparr>)
                   (retryState st)\<rparr>) (acc @ [f]) = (st', acc')" by simp
        from Cons.IH [OF this] show ?thesis
          by (rule retryFrame_trans [OF retryFrame_upd(2)])
      next
        case (Folder x)
        with Some False Cons.prems pe
        have "flushLoop env now es (st\<lparr>retryState := AList.delete p (retryState st)\<rparr>) acc
                = (st', acc')" by simp
        from Cons.IH [OF this] show ?thesis
          by (rule retryFrame_trans [OF retryFrame_upd(2)])
      qed
    qed
  qed
qed

lemma flushRetries_core_inv:
  assumes inv: "core_inv st"
  shows "core_inv (flushRetries env session st)"
proof (cases "stopped st \<or> processingSession st \<noteq> session \<or> retryState st = []")
  case True
  then have "flushRetries env session st = clearRetryState st" by (simp add: flushRetries_def)
  with inv show ?thesis
    by (auto intro: core_inv_eqI simp: retryFrame_core [OF clearRetryState_frame])
next
  case False
  obtain st1 fs where l: "flushLoop env (e_now env) (retryState st) st [] = (st1, fs)"
    by (cases "flushLoop env (e_now env) (retryState st) st []")
  from flushLoop_frame [OF l] inv have c1: "core_inv st1"
    by (auto intro: core_inv_eqI simp: retryFrame_core)
  then have "core_inv (if fs \<noteq> [] then queueFiles fs st1 else st1)"
    by (simp add: queueFiles_core_inv)
  then have "core_inv (scheduleRetryTimer (e_now env) session
                (if fs \<noteq> [] then queueFiles fs st1 else st1))"
    by (rule core_inv_eqI) (rule retryFrame_core [OF scheduleRetryTimer_frame])
  with False l show ?thesis by (simp add: flushRetries_def)
qed

lemma flushRetries_ctl: "ctl (flushRetries env session st) = ctl st"
proof (cases "stopped st \<or> processingSession st \<noteq> session \<or> retryState st = []")
  case True
  then have "flushRetries env session st = clearRetryState st" by (simp add: flushRetries_def)
  then show ?thesis by (simp add: retryFrame_ctl [OF clearRetryState_frame])
next
  case False
  obtain st1 fs where l: "flushLoop env (e_now env) (retryState st) st [] = (st1, fs)"
    by (cases "flushLoop env (e_now env) (retryState st) st []")
  from flushLoop_frame [OF l] have c1: "ctl st1 = ctl st" by (rule retryFrame_ctl)
  then have "ctl (if fs \<noteq> [] then queueFiles fs st1 else st1) = ctl st"
    by (simp add: queueFiles_ctl)
  then have "ctl (scheduleRetryTimer (e_now env) session
                (if fs \<noteq> [] then queueFiles fs st1 else st1)) = ctl st"
    by (simp only: retryFrame_ctl [OF scheduleRetryTimer_frame])
  with False l show ?thesis by (simp add: flushRetries_def)
qed

lemma stopProcessing_session_inv: "session_inv st \<Longrightarrow> session_inv (stopProcessing st)"
  by (cases "abortController st")
     (auto simp: session_inv_def batch_ok_def stopProcessing_def clearRetryState_def
        clearRetryTimer_def Let_def less_Suc_eq_le)



lemma startProcessing_session_inv: "session_inv st \<Longrightarrow> session_inv (startProcessing s st)"
  by (auto simp: session_inv_def batch_ok_def startProcessing_def)

lemma settle_fields:
  "dbWrites (settle (st, bo)) = dbWrites st"
  "processingSession (settle (st, bo)) = processingSession st"
  by (cases bo; simp add: settle_def)+

lemma step_core_inv: "core_inv st \<Longrightarrow> core_inv (step env ev st)"
proof (cases ev)
  case (QueueFiles fs)
  assume "core_inv st"
  with QueueFiles show ?thesis by (simp add: queueFiles_core_inv)
next
  case (StartProcessing s)
  assume "core_inv st"
  with StartProcessing show ?thesis by (simp add: startProcessing_core_inv)
next
  case (OnSettingsChanged s)
  assume "core_inv st"
  then have "core_inv (onSettingsChanged s st)"
    by (rule core_inv_eqI) (simp add: core_def onSettingsChanged_def)
  with OnSettingsChanged show ?thesis by simp
next
  case StopProcessing
  then show ?thesis by (simp add: stopProcessing_core_inv)
next
  case DebounceTimerFires
  assume inv: "core_inv st"
  then have "core_inv (st\<lparr>queueDebounceTimer := False\<rparr>)"
    by (rule core_inv_eqI) (simp add: core_def)
  with inv DebounceTimerFires show ?thesis
    by (simp add: Let_def runProcessNextBatch_core_inv)
next
  case RetryTimerFires
  assume inv: "core_inv st"
  then have "core_inv (st\<lparr>retryTimer := None\<rparr>)"
    by (rule core_inv_eqI) (simp add: core_def)
  with inv RetryTimerFires show ?thesis
    by (simp add: flushRetries_core_inv split: option.splits)
next
  case NextBatchTick
  assume inv: "core_inv st"
  then have "core_inv (st\<lparr>pendingTicks := pendingTicks st - 1\<rparr>)"
    by (rule core_inv_eqI) (simp add: core_def)
  with inv NextBatchTick show ?thesis
    by (simp add: runProcessNextBatch_core_inv)
next
  case (BatchResumes k)
  assume inv: "core_inv st"
  let ?st1 = "st\<lparr>inflight := take k (inflight st) @ drop (Suc k) (inflight st)\<rparr>"
  obtain st' bo where r: "resumeBatch env (inflight st ! k) ?st1 = (st', bo)"
    by (cases "resumeBatch env (inflight st ! k) ?st1")
  from inv have "core_inv ?st1" by (rule core_inv_eqI) (simp add: core_def)
  from resumeBatch_core_inv [OF r this] have "core_inv (settle (st', bo))"
    by (rule settle_core_inv)
  with inv BatchResumes r show ?thesis by simp
qed

lemma step_session_inv: "session_inv st \<Longrightarrow> session_inv (step env ev st)"
proof (cases ev)
  case (QueueFiles fs)
  assume "session_inv st"
  with QueueFiles show ?thesis by (simp add: session_inv_cong [OF queueFiles_ctl])
next
  case (StartProcessing s)
  assume "session_inv st"
  with StartProcessing show ?thesis by (simp add: startProcessing_session_inv)
next
  case (OnSettingsChanged s)
  assume "session_inv st"
  with OnSettingsChanged show ?thesis
    by (simp add: session_inv_def batch_ok_def onSettingsChanged_def)
next
  case StopProcessing
  assume "session_inv st"
  with StopProcessing show ?thesis by (simp add: stopProcessing_session_inv)
next
  case DebounceTimerFires
  assume inv: "session_inv st"
  then have "session_inv (st\<lparr>queueDebounceTimer := False\<rparr>)"
    by (simp add: session_inv_def batch_ok_def)
  with inv DebounceTimerFires show ?thesis
    by (simp add: Let_def runProcessNextBatch_session_inv)
next
  case RetryTimerFires
  assume inv: "session_inv st"
  then have "session_inv (st\<lparr>retryTimer := None\<rparr>)"
    by (simp add: session_inv_def batch_ok_def)
  with inv RetryTimerFires show ?thesis
    by (simp add: session_inv_cong [OF flushRetries_ctl] split: option.splits)
next
  case NextBatchTick
  assume inv: "session_inv st"
  then have "session_inv (st\<lparr>pendingTicks := pendingTicks st - 1\<rparr>)"
    by (simp add: session_inv_def batch_ok_def)
  with inv NextBatchTick show ?thesis
    by (simp add: runProcessNextBatch_session_inv)
next
  case (BatchResumes k)
  assume inv: "session_inv st"
  show ?thesis
  proof (cases "k < length (inflight st)")
    case False
    with inv BatchResumes show ?thesis by simp
  next
    case True
    let ?st1 = "st\<lparr>inflight := take k (inflight st) @ drop (Suc k) (inflight st)\<rparr>"
    let ?b = "inflight st ! k"
    obtain st' bo where r: "resumeBatch env ?b ?st1 = (st', bo)"
      by (cases "resumeBatch env ?b ?st1")
    have sub: "set (take k (inflight st) @ drop (Suc k) (inflight st)) \<subseteq> set (inflight st)"
      using set_take_subset [of k "inflight st"] set_drop_subset [of "Suc k" "inflight st"]
      by auto
    from inv sub have inv1: "session_inv ?st1"
      by (auto simp: session_inv_def batch_ok_def)
    from inv nth_mem [OF True] have ok: "batch_ok ?st1 ?b"
      by (simp add: session_inv_def batch_ok_def)
    from resumeBatch_wrote [OF r]
    have w: "wrote ?st1 st'" and sb: "\<forall>b' \<in> set_option bo. same_batch ?b b'"
      by simp_all
    from wrote_session_inv [OF w] inv1 have inv': "session_inv st'" by simp
    from sb ok have "\<forall>b' \<in> set_option bo. batch_ok st' b'"
      using wrote_batch_ok [OF w] by blast
    with inv' have "session_inv (settle (st', bo))" by (rule settle_session_inv)
    with True BatchResumes r show ?thesis by simp
  qed
qed

lemma initial_invs: "core_inv initial" "session_inv initial"
  by (simp_all add: initial_def core_inv_def queue_inv_def tracking_inv_def dirty_wf_def
      stopped_inv_def session_inv_def)

lemma reachable_invs: "reachable st \<Longrightarrow> core_inv st \<and> session_inv st"
  by (induction rule: reachable.induct)
     (simp_all add: initial_invs step_core_inv step_session_inv)

lemma reachable_run: "reachable st \<Longrightarrow> reachable (run tr st)"
proof (induction tr arbitrary: st)
  case Nil
  then show ?case by simp
next
  case (Cons a tr)
  obtain env ev where "a = (env, ev)" by (cases a)
  with Cons show ?case by (simp add: reachable_step)
qed

lemma wrote_dbWrites:
  assumes "wrote st st'"
  shows "\<exists>ws. dbWrites st' = dbWrites st @ ws
            \<and> (\<forall>w \<in> set ws. w_session w = processingSession st)
            \<and> processingSession st' = processingSession st"
  using assms by (auto simp: wrote_def ctl_def)

lemma runProcessNextBatch_dbWrites:
  "\<exists>ws. dbWrites (runProcessNextBatch env st) = dbWrites st @ ws
            \<and> (\<forall>w \<in> set ws. w_session w = processingSession st)
            \<and> processingSession (runProcessNextBatch env st) = processingSession st"
proof -
  obtain st' bo where p: "processNextBatch env st = (st', bo)"
    by (cases "processNextBatch env st")
  from wrote_dbWrites [OF processNextBatch_wrote(1) [OF p]] p show ?thesis
    by (simp add: runProcessNextBatch_def settle_fields)
qed

lemma step_dbWrites:
  "\<exists>ws. dbWrites (step env ev st) = dbWrites st @ ws
        \<and> (\<forall>w \<in> set ws. w_session w = processingSession st)
        \<and> processingSession st \<le> processingSession (step env ev st)"
proof (cases ev)
  case (QueueFiles fs)
  then show ?thesis by (simp add: ctl_fields [OF queueFiles_ctl])
next
  case (StartProcessing s)
  then show ?thesis by (simp add: startProcessing_def)
next
  case (OnSettingsChanged s)
  then show ?thesis by (simp add: onSettingsChanged_def)
next
  case StopProcessing
  then show ?thesis
    by (cases "abortController st")
       (simp_all add: stopProcessing_def clearRetryState_def clearRetryTimer_def Let_def)
next
  case DebounceTimerFires
  from runProcessNextBatch_dbWrites [of env "st\<lparr>queueDebounceTimer := False\<rparr>"]
  show ?thesis using DebounceTimerFires by (auto simp: Let_def)
next
  case RetryTimerFires
  then show ?thesis by (simp add: ctl_fields [OF flushRetries_ctl] split: option.splits)
next
  case NextBatchTick
  from runProcessNextBatch_dbWrites [of env "st\<lparr>pendingTicks := pendingTicks st - 1\<rparr>"]
  show ?thesis using NextBatchTick by (auto simp: Let_def)
next
  case (BatchResumes k)
  let ?st1 = "st\<lparr>inflight := take k (inflight st) @ drop (Suc k) (inflight st)\<rparr>"
  obtain st' bo where r: "resumeBatch env (inflight st ! k) ?st1 = (st', bo)"
    by (cases "resumeBatch env (inflight st ! k) ?st1")
  from resumeBatch_wrote [OF r] have "wrote ?st1 st'" by simp
  from wrote_dbWrites [OF this] show ?thesis using BatchResumes r
    by (auto simp: settle_fields)
qed

lemma run_dbWrites:
  "\<exists>ws. dbWrites (run tr st) = dbWrites st @ ws
        \<and> (\<forall>w \<in> set ws. processingSession st \<le> w_session w)"
proof (induction tr arbitrary: st)
  case Nil
  then show ?case by simp
next
  case (Cons a tr)
  obtain env ev where a: "a = (env, ev)" by (cases a)
  from step_dbWrites [of env ev st] obtain ws1 where
    1: "dbWrites (step env ev st) = dbWrites st @ ws1"
       "\<forall>w \<in> set ws1. w_session w = processingSession st"
       "processingSession st \<le> processingSession (step env ev st)" by blast
  from Cons.IH [of "step env ev st"] obtain ws2 where
    2: "dbWrites (run tr (step env ev st)) = dbWrites (step env ev st) @ ws2"
       "\<forall>w \<in> set ws2. processingSession (step env ev st) \<le> w_session w" by blast
  from 1 2 have "dbWrites (run (a # tr) st) = dbWrites st @ (ws1 @ ws2)"
    by (simp add: a)
  moreover from 1 2 have "\<forall>w \<in> set (ws1 @ ws2). processingSession st \<le> w_session w"
    by fastforce
  ultimately show ?case by blast
qed

lemma afterLoop_write_guard:
  "dbWrites (fst (afterLoop env b st)) \<noteq> dbWrites st \<Longrightarrow>
     processingSession st = b_session b \<and> \<not> stopped st \<and> b_abortSignal b \<notin> aborted st"
proof -
  assume a: "dbWrites (fst (afterLoop env b st)) \<noteq> dbWrites st"
  have "dbWrites (finallyBlock b st) = dbWrites st"
    by (rule ctl_fields [OF finallyBlock_ctl])
  with a show ?thesis by (auto simp: afterLoop_def cancelled_def split: if_splits)
qed

section \<open>Claims about sessions and the tracking structures\<close>

text \<open>
  C1. Once \<open>stopProcessing()\<close> has been called, whatever happens next (a restart, new
  files, the batches of the earlier session resuming), every database write issued from
  then on carries a captured session newer than the session that was stopped, and so
  newer than the session of any batch that was in flight at the stop: the write of such
  a batch is never issued. The write is guarded where it is issued: \<open>afterLoop\<close>
  appends a write only when the captured session is the current one and neither the
  stopped flag nor the abort signal is set.
\<close>

theorem no_write_from_stopped_session:
  assumes "reachable st"
  shows "(\<exists>ws. dbWrites (run tr (stopProcessing st)) = dbWrites st @ ws
           \<and> (\<forall>w \<in> set ws. processingSession st < w_session w
                 \<and> (\<forall>b \<in> set (inflight st). b_session b < w_session w)))
         \<and> (dbWrites (fst (afterLoop env b' st')) \<noteq> dbWrites st' \<longrightarrow>
               processingSession st' = b_session b' \<and> \<not> stopped st'
               \<and> b_abortSignal b' \<notin> aborted st')"
proof -
  from run_dbWrites [of tr "stopProcessing st"] obtain ws where
    1: "dbWrites (run tr (stopProcessing st)) = dbWrites (stopProcessing st) @ ws"
       "\<forall>w \<in> set ws. processingSession (stopProcessing st) \<le> w_session w" by blast
  have s: "processingSession (stopProcessing st) = processingSession st + 1"
    "dbWrites (stopProcessing st) = dbWrites st"
    by (cases "abortController st";
        simp add: stopProcessing_def clearRetryState_def clearRetryTimer_def Let_def)+
  from reachable_invs [OF assms] have "\<forall>b \<in> set (inflight st). b_session b \<le> processingSession st"
    by (simp add: session_inv_def batch_ok_def)
  with 1 s have "\<exists>ws. dbWrites (run tr (stopProcessing st)) = dbWrites st @ ws
           \<and> (\<forall>w \<in> set ws. processingSession st < w_session w
                 \<and> (\<forall>b \<in> set (inflight st). b_session b < w_session w))"
    by fastforce
  with afterLoop_write_guard [of env b' st'] show ?thesis by blast
qed

theorem no_write_from_stopped_session_witness:
  "reachable (run startedBatch initial)
   \<and> map b_session (inflight (run startedBatch initial)) = [0]
   \<and> map w_session (dbWrites (run afterRestart (stopProcessing (run startedBatch initial)))) = [1]
   \<and> (\<exists>ws. dbWrites (run afterRestart (stopProcessing (run startedBatch initial)))
              = dbWrites (run startedBatch initial) @ ws
           \<and> (\<forall>w \<in> set ws. processingSession (run startedBatch initial) < w_session w
                 \<and> (\<forall>b \<in> set (inflight (run startedBatch initial)). b_session b < w_session w)))
   \<and> dbWrites (fst (afterLoop workingEnv yieldingBatch (run chunkDone initial)))
        \<noteq> dbWrites (run chunkDone initial)
   \<and> processingSession (run chunkDone initial) = b_session yieldingBatch
   \<and> \<not> stopped (run chunkDone initial)
   \<and> b_abortSignal yieldingBatch \<notin> aborted (run chunkDone initial)"
proof -
  have r: "reachable (run startedBatch initial)"
    by (rule reachable_run [OF reachable_initial])
  have a: "map b_session (inflight (run startedBatch initial)) = [0]"
    by code_simp
  have b: "map w_session (dbWrites (run afterRestart (stopProcessing (run startedBatch initial))))
             = [1]"
    by code_simp
  have c: "dbWrites (fst (afterLoop workingEnv yieldingBatch (run chunkDone initial)))
             \<noteq> dbWrites (run chunkDone initial)"
    by code_simp
  from no_write_from_stopped_session
         [OF r, of afterRestart workingEnv yieldingBatch "run chunkDone initial"] r a b c
  show ?thesis by blast
qed

text \<open>
  C2, counterexample. A file enqueued while its batch is being processed is recorded in
  the dirty map while its path is still in the processing set: the path is in two of the
  three structures at once.
\<close>

theorem dirty_path_is_also_processing:
  "reachable (run enqueuedMidBatch initial)
   \<and> ''notes/a.md'' \<in> processingFiles (run enqueuedMidBatch initial)
   \<and> ''notes/a.md'' \<in> fst ` set (dirtyFilesDuringProcessing (run enqueuedMidBatch initial))"
proof -
  have "reachable (run enqueuedMidBatch initial)"
    by (rule reachable_run [OF reachable_initial])
  moreover have "''notes/a.md'' \<in> processingFiles (run enqueuedMidBatch initial)"
    by code_simp
  moreover have "''notes/a.md''
      \<in> fst ` set (dirtyFilesDuringProcessing (run enqueuedMidBatch initial))"
    by code_simp
  ultimately show ?thesis by blast
qed

text \<open>
  C2, as amended. In every reachable state the queued set is disjoint from the
  processing set and from the keys of the dirty map, and every key of the dirty map is
  in the processing set.
\<close>

theorem queued_disjoint_from_processing_and_dirty:
  assumes "reachable st"
  shows "queuedFiles st \<inter> processingFiles st = {}
         \<and> queuedFiles st \<inter> fst ` set (dirtyFilesDuringProcessing st) = {}
         \<and> fst ` set (dirtyFilesDuringProcessing st) \<subseteq> processingFiles st"
  using reachable_invs [OF assms] by (auto simp: core_inv_def tracking_inv_def)

theorem queued_disjoint_from_processing_and_dirty_witness:
  "reachable (run twoEnqueuedMidBatch initial)
   \<and> queuedFiles (run twoEnqueuedMidBatch initial) = {''notes/b.md''}
   \<and> processingFiles (run twoEnqueuedMidBatch initial) = {''notes/a.md''}
   \<and> map fst (dirtyFilesDuringProcessing (run twoEnqueuedMidBatch initial)) = [''notes/a.md'']
   \<and> queuedFiles (run twoEnqueuedMidBatch initial)
        \<inter> processingFiles (run twoEnqueuedMidBatch initial) = {}
   \<and> queuedFiles (run twoEnqueuedMidBatch initial)
        \<inter> fst ` set (dirtyFilesDuringProcessing (run twoEnqueuedMidBatch initial)) = {}
   \<and> fst ` set (dirtyFilesDuringProcessing (run twoEnqueuedMidBatch initial))
        \<subseteq> processingFiles (run twoEnqueuedMidBatch initial)"
proof -
  have r: "reachable (run twoEnqueuedMidBatch initial)"
    by (rule reachable_run [OF reachable_initial])
  have a: "queuedFiles (run twoEnqueuedMidBatch initial) = {''notes/b.md''}"
    by code_simp
  have b: "processingFiles (run twoEnqueuedMidBatch initial) = {''notes/a.md''}"
    by code_simp
  have c: "map fst (dirtyFilesDuringProcessing (run twoEnqueuedMidBatch initial))
             = [''notes/a.md'']"
    by code_simp
  from queued_disjoint_from_processing_and_dirty [OF r] r a b c show ?thesis
    by blast
qed



section \<open>Stopping twice\<close>

text \<open>
  C7, counterexample. Stopping is not idempotent on the whole state: every call
  increments the session counter, so a second call leaves a state that differs from the
  state after the first.
\<close>

theorem stopProcessing_twice_differs:
  "stopProcessing (stopProcessing initial) \<noteq> stopProcessing initial"
proof
  assume "stopProcessing (stopProcessing initial) = stopProcessing initial"
  then have "processingSession (stopProcessing (stopProcessing initial))
               = processingSession (stopProcessing initial)"
    by simp
  then show False
    by (simp add: stopProcessing_def clearRetryState_def clearRetryTimer_def Let_def
        initial_def)
qed

text \<open>
  C7, as amended. Apart from the session counter, which each call increments by one, a
  second \<open>stopProcessing()\<close> changes nothing. Each call sets the stopped flag, fires the
  abort signal of the current controller and drops the controller, clears the debounce
  timer, the retry state and the retry timer, and leaves the queue, the queued set, the
  processing set and the dirty map empty.
\<close>

theorem stopProcessing_idempotent_up_to_session:
  "stopProcessing (stopProcessing st)
     = (stopProcessing st)\<lparr>processingSession := processingSession st + 2\<rparr>
   \<and> processingSession (stopProcessing st) = processingSession st + 1
   \<and> stopped (stopProcessing st)
   \<and> aborted (stopProcessing st) = aborted st \<union> set_option (abortController st)
   \<and> abortController (stopProcessing st) = None
   \<and> \<not> queueDebounceTimer (stopProcessing st)
   \<and> retryState (stopProcessing st) = [] \<and> retryTimer (stopProcessing st) = None
   \<and> \<not> isProcessing (stopProcessing st)
   \<and> queue (stopProcessing st) = [] \<and> queuedFiles (stopProcessing st) = {}
   \<and> processingFiles (stopProcessing st) = {}
   \<and> dirtyFilesDuringProcessing (stopProcessing st) = []"
  by (cases "abortController st")
     (simp_all add: stopProcessing_def clearRetryState_def clearRetryTimer_def Let_def)

section \<open>Claims about enqueuing\<close>

lemma queueFiles_single_new:
  assumes "\<not> stopped st" "path f \<notin> queuedFiles st" "path f \<notin> processingFiles st"
  shows "queue (queueFiles [f] st) = queue st @ [mkJob f]"
    and "queuedFiles (queueFiles [f] st) = insert (path f) (queuedFiles st)"
    and "processingFiles (queueFiles [f] st) = processingFiles st"
    and "\<not> stopped (queueFiles [f] st)"
  using assms
  by (auto simp: queueFiles_def Let_def startProcessing_def split: option.splits)

lemma queueFiles_single_queued:
  assumes "\<not> stopped st" "path f \<in> queuedFiles st" "path f \<notin> processingFiles st"
  shows "queueFiles [f] st = st"
  using assms by (simp add: queueFiles_def Let_def)

text \<open>
  C5. In a reachable state where the provider is not stopped and the path of \<open>fileA\<close> is
  neither queued nor being processed, two calls \<open>queueFiles([fileA])\<close> in succession leave
  exactly one job for \<open>fileA\<close> in the queue: the first call appends it, the second call
  changes nothing.
\<close>

theorem queueFiles_twice_enqueues_once:
  assumes "\<not> stopped st" "path fileA \<notin> queuedFiles st" "path fileA \<notin> processingFiles st"
    and "reachable st"
  shows "queue (queueFiles [fileA] (queueFiles [fileA] st)) = queue st @ [mkJob fileA]
         \<and> filter (\<lambda>j. path (job_file j) = path fileA)
              (queue (queueFiles [fileA] (queueFiles [fileA] st))) = [mkJob fileA]
         \<and> queueFiles [fileA] (queueFiles [fileA] st) = queueFiles [fileA] st"
proof -
  note first = queueFiles_single_new [OF assms(1,2,3)]
  have second: "queueFiles [fileA] (queueFiles [fileA] st) = queueFiles [fileA] st"
    by (rule queueFiles_single_queued) (simp_all add: first assms)
  from reachable_invs [OF assms(4)] assms(2)
  have "path fileA \<notin> set (map (\<lambda>j. path (job_file j)) (queue st))"
    by (simp add: core_inv_def queue_inv_def)
  then have "filter (\<lambda>j. path (job_file j) = path fileA) (queue st) = []"
    by (force simp: filter_empty_conv image_iff)
  with first(1) second show ?thesis by simp
qed

theorem queueFiles_twice_enqueues_once_witness:
  "\<not> stopped (startProcessing (Settings 0) initial)
   \<and> path noteA \<notin> queuedFiles (startProcessing (Settings 0) initial)
   \<and> path noteA \<notin> processingFiles (startProcessing (Settings 0) initial)
   \<and> reachable (startProcessing (Settings 0) initial)
   \<and> queue (queueFiles [noteA] (queueFiles [noteA] (startProcessing (Settings 0) initial)))
        = [mkJob noteA]
   \<and> filter (\<lambda>j. path (job_file j) = path noteA)
        (queue (queueFiles [noteA] (queueFiles [noteA] (startProcessing (Settings 0) initial))))
        = [mkJob noteA]
   \<and> queueFiles [noteA] (queueFiles [noteA] (startProcessing (Settings 0) initial))
        = queueFiles [noteA] (startProcessing (Settings 0) initial)"
proof -
  have h: "\<not> stopped (startProcessing (Settings 0) initial)"
    "path noteA \<notin> queuedFiles (startProcessing (Settings 0) initial)"
    "path noteA \<notin> processingFiles (startProcessing (Settings 0) initial)"
    by (simp_all add: startProcessing_def initial_def)
  have r: "reachable (startProcessing (Settings 0) initial)"
    using reachable_step [OF reachable_initial, of workingEnv "StartProcessing (Settings 0)"]
    by simp
  have e: "queue (startProcessing (Settings 0) initial) = []"
    by (simp add: startProcessing_def initial_def)
  note t = queueFiles_twice_enqueues_once [OF h r]
  from t [THEN conjunct1] e
  have "queue (queueFiles [noteA] (queueFiles [noteA] (startProcessing (Settings 0) initial)))
          = [mkJob noteA]"
    by simp
  with t h r show ?thesis by blast
qed









section \<open>Claims about the retry scheduler\<close>

lemma scheduleRetryTimer_retryState [simp]:
  "retryState (scheduleRetryTimer now session st) = retryState st"
  by (simp add: scheduleRetryTimer_def clearRetryTimer_def Let_def)

lemma scheduleRetryTimer_console [simp]:
  "console (scheduleRetryTimer now session st) = console st"
  by (simp add: scheduleRetryTimer_def clearRetryTimer_def Let_def)

lemma scheduleRetry_below_max:
  assumes "\<not> stopped st" "processingSession st = session" "attemptsOf st (path f) < RETRY_MAX_ATTEMPTS"
  shows "retryState (scheduleRetry now f session st)
           = AList.update (path f)
               \<lparr>attempts = attemptsOf st (path f) + 1,
                nextRetryAt = now + retryDelay (attemptsOf st (path f) + 1)\<rparr> (retryState st)"
    and "console (scheduleRetry now f session st) = console st"
  using assms
  by (auto simp: scheduleRetry_def attemptsOf_def Let_def split: option.splits)

lemma scheduleRetry_at_max:
  assumes "\<not> stopped st" "processingSession st = session"
    "attemptsOf st (path f) \<ge> RETRY_MAX_ATTEMPTS"
  shows "retryState (scheduleRetry now f session st) = AList.delete (path f) (retryState st)"
    and "console (scheduleRetry now f session st)
           = console st @ [RetryExhausted (path f) (attemptsOf st (path f) + 1)]"
  using assms
  by (auto simp: scheduleRetry_def attemptsOf_def Let_def RETRY_MAX_ATTEMPTS_def
      split: option.splits)

lemma flushLoop_attempts:
  assumes "flushLoop env now es st acc = (st', acc')"
    and "e_getAbstractFileByPath env p = Some (File f')"
    and "\<forall>e. (p, e) \<in> set es \<longrightarrow> map_of (retryState st) p = Some e"
    and "distinct (map fst es)"
  shows "attemptsOf st' p = attemptsOf st p \<and> (map_of (retryState st) p \<noteq> None \<longrightarrow> map_of (retryState st') p \<noteq> None)"
  using assms
proof (induction es arbitrary: st acc)
  case Nil
  then show ?case by simp
next
  case (Cons qe es)
  obtain q e where qe: "qe = (q, e)" by (cases qe)
  from Cons.prems(4) qe have dist: "distinct (map fst es)" and qn: "q \<notin> fst ` set es" by auto
  show ?case
  proof (cases "nextRetryAt e > now")
    case True
    with Cons.prems(1) qe have l: "flushLoop env now es st acc = (st', acc')" by simp
    from Cons.prems(3) have "\<forall>e. (p, e) \<in> set es \<longrightarrow> map_of (retryState st) p = Some e" by simp
    from Cons.IH [OF l Cons.prems(2) this dist] show ?thesis .
  next
    case False
    show ?thesis
    proof (cases "q = p")
      case True
      let ?s = "st\<lparr>retryState := AList.update p (e\<lparr>nextRetryAt := RETRY_UNSCHEDULED_AT\<rparr>) (retryState st)\<rparr>"
      from False True Cons.prems(1,2) qe
      have l: "flushLoop env now es ?s (acc @ [f']) = (st', acc')" by simp
      from qn True have "\<forall>e. (p, e) \<in> set es \<longrightarrow> map_of (retryState ?s) p = Some e"
        by (auto simp: image_iff)
      from Cons.IH [OF l Cons.prems(2) this dist]
      have a: "attemptsOf st' p = attemptsOf ?s p"
        "map_of (retryState ?s) p \<noteq> None \<longrightarrow> map_of (retryState st') p \<noteq> None" by simp_all
      from Cons.prems(3) qe True have "map_of (retryState st) p = Some e" by simp
      then have "attemptsOf ?s p = attemptsOf st p"
        by (simp add: attemptsOf_def update_conv')
      with a show ?thesis by (simp add: update_conv')
    next
      case neq: False
      from Cons.prems(3) have inv: "\<forall>e. (p, e) \<in> set es \<longrightarrow> map_of (retryState st) p = Some e"
        by simp
      have keep: "\<And>s. map_of (retryState s) p = map_of (retryState st) p \<Longrightarrow>
          flushLoop env now es s acc'' = (st', acc') \<Longrightarrow>
          attemptsOf st' p = attemptsOf st p \<and> (map_of (retryState st) p \<noteq> None \<longrightarrow> map_of (retryState st') p \<noteq> None)"
        for acc''
      proof -
        fix s assume m: "map_of (retryState s) p = map_of (retryState st) p"
          and l: "flushLoop env now es s acc'' = (st', acc')"
        from inv m have "\<forall>e. (p, e) \<in> set es \<longrightarrow> map_of (retryState s) p = Some e" by simp
        from Cons.IH [OF l Cons.prems(2) this dist] m
        show "attemptsOf st' p = attemptsOf st p \<and> (map_of (retryState st) p \<noteq> None \<longrightarrow> map_of (retryState st') p \<noteq> None)"
          by (simp add: attemptsOf_def)
      qed
      show ?thesis
      proof (cases "e_getAbstractFileByPath env q")
        case None
        with False Cons.prems(1) qe
        have l: "flushLoop env now es (st\<lparr>retryState := AList.delete q (retryState st)\<rparr>) acc
                  = (st', acc')" by simp
        show ?thesis by (rule keep [OF _ l]) (simp add: neq [symmetric] delete_conv')
      next
        case (Some a)
        show ?thesis
        proof (cases a)
          case (File g)
          with Some False Cons.prems(1) qe
          have l: "flushLoop env now es
                    (st\<lparr>retryState := AList.update q (e\<lparr>nextRetryAt := RETRY_UNSCHEDULED_AT\<rparr>)
                       (retryState st)\<rparr>) (acc @ [g]) = (st', acc')" by simp
          show ?thesis by (rule keep [OF _ l]) (simp add: neq [symmetric] update_conv')
        next
          case (Folder x)
          with Some False Cons.prems(1) qe
          have l: "flushLoop env now es (st\<lparr>retryState := AList.delete q (retryState st)\<rparr>) acc
                    = (st', acc')" by simp
          show ?thesis by (rule keep [OF _ l]) (simp add: neq [symmetric] delete_conv')
        qed
      qed
    qed
  qed
qed


lemma flushLoop_distinct:
  "flushLoop env now es st acc = (st', acc') \<Longrightarrow> distinct (map fst (retryState st)) \<Longrightarrow>
     distinct (map fst (retryState st'))"
proof (induction es arbitrary: st acc)
  case Nil
  then show ?case by simp
next
  case (Cons qe es)
  obtain q e where qe: "qe = (q, e)" by (cases qe)
  have d1: "distinct (map fst (AList.delete q (retryState st)))"
    using Cons.prems(2) by (rule distinct_delete)
  have d2: "\<And>v. distinct (map fst (AList.update q v (retryState st)))"
    using Cons.prems(2) by (rule distinct_update)
  show ?case
  proof (cases "nextRetryAt e > now")
    case True
    with Cons.prems(1) qe have "flushLoop env now es st acc = (st', acc')" by simp
    from Cons.IH [OF this Cons.prems(2)] show ?thesis .
  next
    case False
    show ?thesis
    proof (cases "e_getAbstractFileByPath env q")
      case None
      with False Cons.prems(1) qe
      have "flushLoop env now es (st\<lparr>retryState := AList.delete q (retryState st)\<rparr>) acc
              = (st', acc')" by simp
      from Cons.IH [OF this] d1 show ?thesis by simp
    next
      case (Some a)
      show ?thesis
      proof (cases a)
        case (File g)
        with Some False Cons.prems(1) qe
        have "flushLoop env now es
                (st\<lparr>retryState := AList.update q (e\<lparr>nextRetryAt := RETRY_UNSCHEDULED_AT\<rparr>)
                   (retryState st)\<rparr>) (acc @ [g]) = (st', acc')" by simp
        from Cons.IH [OF this] d2 show ?thesis by simp
      next
        case (Folder x)
        with Some False Cons.prems(1) qe
        have "flushLoop env now es (st\<lparr>retryState := AList.delete q (retryState st)\<rparr>) acc
                = (st', acc')" by simp
        from Cons.IH [OF this] d1 show ?thesis by simp
      qed
    qed
  qed
qed

lemma queueFiles_retryState [simp]: "retryState (queueFiles fs st) = retryState st"
proof -
  obtain st1 nj where ql: "queueLoop fs st [] = (st1, nj)" by (cases "queueLoop fs st []")
  from queueLoop_fields [OF ql] show ?thesis
    using ql by (auto simp: queueFiles_def Let_def startProcessing_def split: option.splits)
qed

lemma flushRetries_attempts:
  assumes "\<not> stopped st" "processingSession st = session"
    and d: "distinct (map fst (retryState st))"
    and v: "e_getAbstractFileByPath env p = Some (File f')"
  shows "attemptsOf (flushRetries env session st) p = attemptsOf st p"
    and "distinct (map fst (retryState (flushRetries env session st)))"
proof -
  have "attemptsOf (flushRetries env session st) p = attemptsOf st p
        \<and> distinct (map fst (retryState (flushRetries env session st)))"
  proof (cases "retryState st = []")
    case True
    then show ?thesis
      by (simp add: flushRetries_def clearRetryState_def clearRetryTimer_def attemptsOf_def)
  next
    case False
    obtain st1 fs where l: "flushLoop env (e_now env) (retryState st) st [] = (st1, fs)"
      by (cases "flushLoop env (e_now env) (retryState st) st []")
    from d have "\<forall>e. (p, e) \<in> set (retryState st) \<longrightarrow> map_of (retryState st) p = Some e"
      by simp
    from flushLoop_attempts [OF l v this d] have a: "attemptsOf st1 p = attemptsOf st p" by simp
    from flushLoop_distinct [OF l d] have d1: "distinct (map fst (retryState st1))" .
    have "retryState (flushRetries env session st) = retryState st1"
      using assms(1,2) False l by (simp add: flushRetries_def)
    with a d1 show ?thesis by (simp add: attemptsOf_def)
  qed
  then show "attemptsOf (flushRetries env session st) p = attemptsOf st p"
    and "distinct (map fst (retryState (flushRetries env session st)))" by simp_all
qed

lemma scheduleRetry_keeps_running:
  "stopped (scheduleRetry now f session st) = stopped st"
  "processingSession (scheduleRetry now f session st) = processingSession st"
  using retryFrame_fields [OF scheduleRetry_frame [of st now f session]] by simp_all

lemma flushRetries_keeps_running:
  "stopped (flushRetries env session st) = stopped st"
  "processingSession (flushRetries env session st) = processingSession st"
  using ctl_fields [OF flushRetries_ctl [of env session st]] by simp_all

lemma failureCycle_counts:
  assumes "\<not> stopped st" "processingSession st = session"
    and "distinct (map fst (retryState st))"
    and "e_getAbstractFileByPath (snd c) (path f) = Some (File f')"
    and "attemptsOf st (path f) < RETRY_MAX_ATTEMPTS"
  shows "attemptsOf (failureCycle f session st c) (path f) = attemptsOf st (path f) + 1"
    and "\<not> stopped (failureCycle f session st c)"
    and "processingSession (failureCycle f session st c) = session"
    and "distinct (map fst (retryState (failureCycle f session st c)))"
proof -
  let ?s = "scheduleRetry (fst c) f session st"
  note sr = scheduleRetry_below_max [OF assms(1,2,5), of "fst c"]
  have run: "\<not> stopped ?s" "processingSession ?s = session"
    using assms(1,2) by (simp_all add: scheduleRetry_keeps_running)
  have d: "distinct (map fst (retryState ?s))"
    using assms(3) by (simp add: sr(1) distinct_update)
  have a: "attemptsOf ?s (path f) = attemptsOf st (path f) + 1"
    by (simp add: attemptsOf_def [of ?s] sr(1) update_conv')
  note fl = flushRetries_attempts [OF run d assms(4)]
  from fl a run show "attemptsOf (failureCycle f session st c) (path f) = attemptsOf st (path f) + 1"
    and "\<not> stopped (failureCycle f session st c)"
    and "processingSession (failureCycle f session st c) = session"
    and "distinct (map fst (retryState (failureCycle f session st c)))"
    by (simp_all add: failureCycle_def flushRetries_keeps_running)
qed

lemma failureCycles_count:
  assumes "\<not> stopped st" "processingSession st = session"
    and "distinct (map fst (retryState st))"
    and "\<forall>c \<in> set cs. \<exists>f'. e_getAbstractFileByPath (snd c) (path f) = Some (File f')"
    and "attemptsOf st (path f) + length cs \<le> RETRY_MAX_ATTEMPTS"
  shows "attemptsOf (foldl (failureCycle f session) st cs) (path f)
           = attemptsOf st (path f) + length cs
         \<and> \<not> stopped (foldl (failureCycle f session) st cs)
         \<and> processingSession (foldl (failureCycle f session) st cs) = session
         \<and> distinct (map fst (retryState (foldl (failureCycle f session) st cs)))"
  using assms
proof (induction cs arbitrary: st)
  case Nil
  then show ?case by simp
next
  case (Cons c cs)
  from Cons.prems(4) obtain f' where
    v: "e_getAbstractFileByPath (snd c) (path f) = Some (File f')" by auto
  from Cons.prems(5) have lt: "attemptsOf st (path f) < RETRY_MAX_ATTEMPTS" by simp
  note fc = failureCycle_counts [OF Cons.prems(1,2,3) v lt]
  from Cons.prems(4) have rest: "\<forall>c \<in> set cs. \<exists>f'. e_getAbstractFileByPath (snd c) (path f) = Some (File f')"
    by simp
  from Cons.prems(5) fc(1)
  have le: "attemptsOf (failureCycle f session st c) (path f) + length cs \<le> RETRY_MAX_ATTEMPTS"
    by simp
  from Cons.IH [OF fc(2,3,4) rest le] fc(1) show ?case by simp
qed


lemma keys_delete: "fst ` set (AList.delete k al) = fst ` set al - {k}"
  using delete_keys [of k al, THEN arg_cong, of set] by (simp only: set_map set_removeAll)

lemma flushLoop_keys:
  "flushLoop env now es st acc = (st', acc') \<Longrightarrow> distinct (map fst es) \<Longrightarrow>
   fst ` set es \<subseteq> fst ` set (retryState st) \<Longrightarrow>
     fst ` set (retryState st') \<subseteq> fst ` set (retryState st)"
proof (induction es arbitrary: st acc)
  case Nil
  then show ?case by simp
next
  case (Cons qe es)
  obtain q e where qe: "qe = (q, e)" by (cases qe)
  from Cons.prems(2) qe have dist: "distinct (map fst es)" and qn: "q \<notin> fst ` set es" by auto
  from Cons.prems(3) qe have qin: "q \<in> fst ` set (retryState st)"
    and sub: "fst ` set es \<subseteq> fst ` set (retryState st)" by auto
  have del: "flushLoop env now es (st\<lparr>retryState := AList.delete q (retryState st)\<rparr>) acc
               = (st', acc') \<Longrightarrow> fst ` set (retryState st') \<subseteq> fst ` set (retryState st)"
  proof -
    assume l: "flushLoop env now es (st\<lparr>retryState := AList.delete q (retryState st)\<rparr>) acc
                 = (st', acc')"
    have "fst ` set es \<subseteq> fst ` set (retryState (st\<lparr>retryState := AList.delete q (retryState st)\<rparr>))"
      using sub qn by (auto simp: keys_delete)
    from Cons.IH [OF l dist this] show ?thesis by (auto simp: keys_delete)
  qed
  show ?case
  proof (cases "nextRetryAt e > now")
    case True
    with Cons.prems(1) qe have "flushLoop env now es st acc = (st', acc')" by simp
    from Cons.IH [OF this dist sub] show ?thesis .
  next
    case False
    show ?thesis
    proof (cases "e_getAbstractFileByPath env q")
      case None
      with False Cons.prems(1) qe show ?thesis by (intro del) simp
    next
      case (Some a)
      show ?thesis
      proof (cases a)
        case (File g)
        let ?s = "st\<lparr>retryState := AList.update q (e\<lparr>nextRetryAt := RETRY_UNSCHEDULED_AT\<rparr>)
                   (retryState st)\<rparr>"
        from File Some False Cons.prems(1) qe
        have l: "flushLoop env now es ?s (acc @ [g]) = (st', acc')" by simp
        have k: "fst ` set (retryState ?s) = fst ` set (retryState st)"
          using qin by (auto simp: dom_update)
        with sub have "fst ` set es \<subseteq> fst ` set (retryState ?s)" by simp
        from Cons.IH [OF l dist this] k show ?thesis by simp
      next
        case (Folder x)
        with Some False Cons.prems(1) qe show ?thesis by (intro del) simp
      qed
    qed
  qed
qed

lemma flushRetries_keys:
  assumes "distinct (map fst (retryState st))"
  shows "fst ` set (retryState (flushRetries env session st)) \<subseteq> fst ` set (retryState st)"
proof (cases "stopped st \<or> processingSession st \<noteq> session \<or> retryState st = []")
  case True
  then show ?thesis by (simp add: flushRetries_def clearRetryState_def clearRetryTimer_def)
next
  case False
  obtain st1 fs where l: "flushLoop env (e_now env) (retryState st) st [] = (st1, fs)"
    by (cases "flushLoop env (e_now env) (retryState st) st []")
  from flushLoop_keys [OF l assms] have "fst ` set (retryState st1) \<subseteq> fst ` set (retryState st)"
    by simp
  moreover have "retryState (flushRetries env session st) = retryState st1"
    using False l by (simp add: flushRetries_def)
  ultimately show ?thesis by simp
qed

text \<open>
  C3. A path without a retry entry fails five times in one session, the retry timer
  firing after each failure while the vault still has the file: after the \<open>k\<close>-th failure
  the entry counts \<open>k\<close> attempts. The sixth failure removes the entry and writes an error
  to the console, and a later firing of the retry timer finds no entry for the path.
\<close>

theorem retry_entry_dropped_after_fifth_retry:
  assumes run: "\<not> stopped st" "processingSession st = session"
    and d: "distinct (map fst (retryState st))"
    and fresh: "map_of (retryState st) (path f) = None"
    and len: "length cs = 5"
    and v: "\<forall>c \<in> set cs. \<exists>f'. e_getAbstractFileByPath (snd c) (path f) = Some (File f')"
  shows "(\<forall>k \<le> 5. attemptsOf (foldl (failureCycle f session) st (take k cs)) (path f) = k)
         \<and> map_of (retryState (scheduleRetry t f session (foldl (failureCycle f session) st cs)))
              (path f) = None
         \<and> console (scheduleRetry t f session (foldl (failureCycle f session) st cs))
             = console (foldl (failureCycle f session) st cs) @ [RetryExhausted (path f) 6]
         \<and> path f \<notin> fst ` set (retryState (flushRetries env session
              (scheduleRetry t f session (foldl (failureCycle f session) st cs))))"
proof -
  let ?s5 = "foldl (failureCycle f session) st cs"
  let ?s6 = "scheduleRetry t f session ?s5"
  from fresh have a0: "attemptsOf st (path f) = 0" by (simp add: attemptsOf_def)
  have 1: "\<forall>k \<le> 5. attemptsOf (foldl (failureCycle f session) st (take k cs)) (path f) = k"
  proof (intro allI impI)
    fix k :: nat assume k: "k \<le> 5"
    have vk: "\<forall>c \<in> set (take k cs). \<exists>f'. e_getAbstractFileByPath (snd c) (path f) = Some (File f')"
      using v by (auto dest: in_set_takeD)
    have "attemptsOf st (path f) + length (take k cs) \<le> RETRY_MAX_ATTEMPTS"
      using k len a0 by (simp add: RETRY_MAX_ATTEMPTS_def)
    from failureCycles_count [OF run d vk this] a0 k len
    show "attemptsOf (foldl (failureCycle f session) st (take k cs)) (path f) = k" by simp
  qed
  have "attemptsOf st (path f) + length cs \<le> RETRY_MAX_ATTEMPTS"
    using len a0 by (simp add: RETRY_MAX_ATTEMPTS_def)
  from failureCycles_count [OF run d v this] a0 len
  have s5: "attemptsOf ?s5 (path f) = 5" "\<not> stopped ?s5" "processingSession ?s5 = session"
    "distinct (map fst (retryState ?s5))" by simp_all
  from s5(1) have mx: "attemptsOf ?s5 (path f) \<ge> RETRY_MAX_ATTEMPTS"
    by (simp add: RETRY_MAX_ATTEMPTS_def)
  note drop = scheduleRetry_at_max [OF s5(2,3) mx, of t]
  from drop(1) have 2: "map_of (retryState ?s6) (path f) = None"
    by (simp add: delete_conv')
  from drop(2) s5(1) have 3: "console ?s6 = console ?s5 @ [RetryExhausted (path f) 6]" by simp
  from drop(1) s5(4) have d6: "distinct (map fst (retryState ?s6))"
    by (simp add: distinct_delete)
  from drop(1) have "path f \<notin> fst ` set (retryState ?s6)" by (simp add: keys_delete)
  with flushRetries_keys [OF d6, of env session]
  have 4: "path f \<notin> fst ` set (retryState (flushRetries env session ?s6))" by auto
  from 1 2 3 4 show ?thesis by blast
qed

theorem retry_entry_dropped_after_fifth_retry_witness:
  "\<not> stopped (startProcessing (Settings 0) initial)
   \<and> processingSession (startProcessing (Settings 0) initial) = 0
   \<and> map_of (retryState (startProcessing (Settings 0) initial)) (path noteA) = None
   \<and> length fiveFailures = 5
   \<and> attemptsOf (foldl (failureCycle noteA 0) (startProcessing (Settings 0) initial)
         (take 5 fiveFailures)) (path noteA) = 5
   \<and> map_of (retryState (scheduleRetry 31000 noteA 0
         (foldl (failureCycle noteA 0) (startProcessing (Settings 0) initial) fiveFailures)))
        (path noteA) = None
   \<and> console (scheduleRetry 31000 noteA 0
         (foldl (failureCycle noteA 0) (startProcessing (Settings 0) initial) fiveFailures))
       = console (foldl (failureCycle noteA 0) (startProcessing (Settings 0) initial) fiveFailures)
           @ [RetryExhausted (path noteA) 6]"
proof -
  have h: "\<not> stopped (startProcessing (Settings 0) initial)"
    "processingSession (startProcessing (Settings 0) initial) = 0"
    "distinct (map fst (retryState (startProcessing (Settings 0) initial)))"
    "map_of (retryState (startProcessing (Settings 0) initial)) (path noteA) = None"
    by (simp_all add: startProcessing_def initial_def)
  have l: "length fiveFailures = 5" by (simp add: fiveFailures_def)
  have v: "\<forall>c \<in> set fiveFailures. \<exists>f'. e_getAbstractFileByPath (snd c) (path noteA) = Some (File f')"
    by (simp add: fiveFailures_def envAt_def workingEnv_def)
  from retry_entry_dropped_after_fifth_retry [OF h l v, of 31000 workingEnv] h l
  show ?thesis by blast
qed

text \<open>
  C4, counterexample. \<open>noteA\<close> fails six times in a row at time 0. The fifth failure
  schedules the retry 16000 ms later; the sixth failure schedules nothing: the entry is
  gone and the retry timer is cleared, so no delay of 30000 ms follows the five.
\<close>

theorem sixth_failure_schedules_no_delay:
  "map_of (retryState (afterFailures 5)) ''notes/a.md''
     = Some \<lparr>attempts = 5, nextRetryAt = 16000\<rparr>
   \<and> map_of (retryState (afterFailures 6)) ''notes/a.md'' = None
   \<and> retryTimer (afterFailures 6) = None"
  by code_simp

lemma retryDelay_values:
  "map retryDelay [1, 2, 3, 4, 5] = [1000, 2000, 4000, 8000, 16000]"
  by (simp add: retryDelay_def RETRY_INITIAL_DELAY_MS_def RETRY_MAX_DELAY_MS_def)

lemma small_cases: "n < (5::nat) \<Longrightarrow> n = 0 \<or> n = 1 \<or> n = 2 \<or> n = 3 \<or> n = 4"
  by arith

text \<open>
  C4, as amended. A failure that finds fewer than five attempts recorded, that is the
  failure number \<open>a\<close> with \<open>1 \<le> a \<le> 5\<close>, schedules the retry
  \<open>min (1000 * 2 ^ (a - 1)) 30000\<close> ms after the failure; the cap does not apply there,
  the delays of the failures 1 to 5 are 1000, 2000, 4000, 8000 and 16000 ms, and each is
  smaller than the next value of the expression. A failure that finds five attempts
  recorded schedules nothing, so the value 30000 of the expression at 6 is never used.
\<close>

theorem backoff_delay_of_scheduled_retry:
  assumes "\<not> stopped st" "processingSession st = session"
  shows "(attemptsOf st (path f) < 5 \<longrightarrow>
            map_of (retryState (scheduleRetry now f session st)) (path f)
              = Some \<lparr>attempts = attemptsOf st (path f) + 1,
                      nextRetryAt = now + min (1000 * 2 ^ attemptsOf st (path f)) 30000\<rparr>
            \<and> min (1000 * 2 ^ attemptsOf st (path f)) 30000
                 = (1000 * 2 ^ attemptsOf st (path f) :: int)
            \<and> retryDelay (attemptsOf st (path f) + 1) < retryDelay (attemptsOf st (path f) + 2))
         \<and> (5 \<le> attemptsOf st (path f) \<longrightarrow>
               map_of (retryState (scheduleRetry now f session st)) (path f) = None)
         \<and> map retryDelay [1, 2, 3, 4, 5] = [1000, 2000, 4000, 8000, 16000]
         \<and> retryDelay 6 = 30000"
proof -
  have 1: "map_of (retryState (scheduleRetry now f session st)) (path f)
              = Some \<lparr>attempts = attemptsOf st (path f) + 1,
                      nextRetryAt = now + min (1000 * 2 ^ attemptsOf st (path f)) 30000\<rparr>
            \<and> min (1000 * 2 ^ attemptsOf st (path f)) 30000
                 = (1000 * 2 ^ attemptsOf st (path f) :: int)
            \<and> retryDelay (attemptsOf st (path f) + 1) < retryDelay (attemptsOf st (path f) + 2)"
    if lt: "attemptsOf st (path f) < 5"
  proof -
    from lt have m: "attemptsOf st (path f) < RETRY_MAX_ATTEMPTS"
      by (simp add: RETRY_MAX_ATTEMPTS_def)
    from scheduleRetry_below_max(1) [OF assms m, of now]
    have a: "map_of (retryState (scheduleRetry now f session st)) (path f)
               = Some \<lparr>attempts = attemptsOf st (path f) + 1,
                       nextRetryAt = now + retryDelay (attemptsOf st (path f) + 1)\<rparr>"
      by (simp add: update_conv')
    have b: "retryDelay (attemptsOf st (path f) + 1) = min (1000 * 2 ^ attemptsOf st (path f)) 30000"
      by (simp add: retryDelay_def RETRY_INITIAL_DELAY_MS_def RETRY_MAX_DELAY_MS_def)
    from small_cases [OF lt]
    have c: "min (1000 * 2 ^ attemptsOf st (path f)) 30000
               = (1000 * 2 ^ attemptsOf st (path f) :: int)
             \<and> retryDelay (attemptsOf st (path f) + 1) < retryDelay (attemptsOf st (path f) + 2)"
      by (elim disjE)
         (simp_all add: retryDelay_def RETRY_INITIAL_DELAY_MS_def RETRY_MAX_DELAY_MS_def)
    from a b c show ?thesis by simp
  qed
  have 2: "map_of (retryState (scheduleRetry now f session st)) (path f) = None"
    if ge: "5 \<le> attemptsOf st (path f)"
  proof -
    from ge have m: "attemptsOf st (path f) \<ge> RETRY_MAX_ATTEMPTS"
      by (simp add: RETRY_MAX_ATTEMPTS_def)
    from scheduleRetry_at_max(1) [OF assms m, of now] show ?thesis
      by (simp add: delete_conv')
  qed
  have 3: "retryDelay 6 = 30000"
    by (simp add: retryDelay_def RETRY_INITIAL_DELAY_MS_def RETRY_MAX_DELAY_MS_def)
  from 1 2 3 retryDelay_values show ?thesis by blast
qed

theorem backoff_delay_of_scheduled_retry_witness:
  "\<not> stopped (afterFailures 2) \<and> processingSession (afterFailures 2) = 0
   \<and> attemptsOf (afterFailures 2) (path noteA) = 2
   \<and> map_of (retryState (scheduleRetry 7 noteA 0 (afterFailures 2))) (path noteA)
        = Some \<lparr>attempts = 3, nextRetryAt = 4007\<rparr>
   \<and> attemptsOf (afterFailures 5) (path noteA) = 5
   \<and> \<not> stopped (afterFailures 5) \<and> processingSession (afterFailures 5) = 0
   \<and> map_of (retryState (scheduleRetry 7 noteA 0 (afterFailures 5))) (path noteA) = None"
proof -
  have h2: "\<not> stopped (afterFailures 2)" "processingSession (afterFailures 2) = 0"
    by code_simp+
  have a2: "attemptsOf (afterFailures 2) (path noteA) = 2" by code_simp
  have h5: "\<not> stopped (afterFailures 5)" "processingSession (afterFailures 5) = 0"
    by code_simp+
  have a5: "attemptsOf (afterFailures 5) (path noteA) = 5" by code_simp
  from backoff_delay_of_scheduled_retry [OF h2, of noteA 7] a2
  have 1: "map_of (retryState (scheduleRetry 7 noteA 0 (afterFailures 2))) (path noteA)
        = Some \<lparr>attempts = 3, nextRetryAt = 4007\<rparr>" by simp
  from backoff_delay_of_scheduled_retry [OF h5, of noteA 7] a5
  have 2: "map_of (retryState (scheduleRetry 7 noteA 0 (afterFailures 5))) (path noteA) = None"
    by simp
  from h2 a2 1 a5 h5 2 show ?thesis by blast
qed

section \<open>Claims about exceptions in a batch\<close>







lemma scheduleRetryTimer_exceptConsole:
  "exceptConsole (scheduleRetryTimer now se (st\<lparr>console := c\<rparr>))
     = exceptConsole (scheduleRetryTimer now se st)"
  by (simp add: exceptConsole_def scheduleRetryTimer_def clearRetryTimer_def Let_def)









section \<open>Claims about the retry timer\<close>

lemma alist_update_middle:
  "k \<notin> fst ` set pre \<Longrightarrow> AList.update k v (pre @ (k, e) # es) = pre @ (k, v) # es"
  by (induction pre) auto

lemma alist_delete_middle:
  "k \<notin> fst ` set pre \<Longrightarrow> k \<notin> fst ` set es \<Longrightarrow> AList.delete k (pre @ (k, e) # es) = pre @ es"
  by (induction pre) auto

lemma flushLoop_spec:
  "retryState st = pre @ es \<Longrightarrow> distinct (map fst (pre @ es)) \<Longrightarrow>
     flushLoop env now es st acc
       = (st\<lparr>retryState := pre @ retryStateAfterFlush env now es\<rparr>,
          acc @ filesToRetryOf env now es)"
proof (induction es arbitrary: st pre acc)
  case Nil
  then show ?case by (simp add: retryStateAfterFlush_def filesToRetryOf_def)
next
  case (Cons qe es)
  obtain q e where qe: "qe = (q, e)" by (cases qe)
  from Cons.prems(2) qe have qpre: "q \<notin> fst ` set pre" and qes: "q \<notin> fst ` set es"
    by auto
  show ?case
  proof (cases "nextRetryAt e > now")
    case True
    have 1: "retryState st = (pre @ [(q, e)]) @ es" using Cons.prems(1) qe by simp
    have 2: "distinct (map fst ((pre @ [(q, e)]) @ es))" using Cons.prems(2) qe by simp
    from Cons.IH [OF 1 2, of acc] True qe show ?thesis
      by (simp add: retryStateAfterFlush_def filesToRetryOf_def entryAfterFlush_def
          fileToRetry_def)
  next
    case False
    have del: "flushLoop env now es (st\<lparr>retryState := AList.delete q (retryState st)\<rparr>) acc
                 = (st\<lparr>retryState := pre @ retryStateAfterFlush env now es\<rparr>,
                    acc @ filesToRetryOf env now es)"
    proof -
      let ?s = "st\<lparr>retryState := AList.delete q (retryState st)\<rparr>"
      have 1: "retryState ?s = pre @ es"
        using Cons.prems(1) qe qpre qes by (simp add: alist_delete_middle)
      have 2: "distinct (map fst (pre @ es))" using Cons.prems(2) by simp
      from Cons.IH [OF 1 2, of acc] show ?thesis by simp
    qed
    show ?thesis
    proof (cases "e_getAbstractFileByPath env q")
      case None
      with False del qe show ?thesis
        by (simp add: retryStateAfterFlush_def filesToRetryOf_def entryAfterFlush_def
            fileToRetry_def)
    next
      case (Some a)
      show ?thesis
      proof (cases a)
        case (File g)
        let ?e' = "e\<lparr>nextRetryAt := RETRY_UNSCHEDULED_AT\<rparr>"
        let ?s = "st\<lparr>retryState := AList.update q ?e' (retryState st)\<rparr>"
        have 1: "retryState ?s = (pre @ [(q, ?e')]) @ es"
          using Cons.prems(1) qe qpre by (simp add: alist_update_middle)
        have 2: "distinct (map fst ((pre @ [(q, ?e')]) @ es))" using Cons.prems(2) qe by simp
        from Cons.IH [OF 1 2, of "acc @ [g]"] False Some File qe show ?thesis
          by (simp add: retryStateAfterFlush_def filesToRetryOf_def entryAfterFlush_def
              fileToRetry_def)
      next
        case (Folder x)
        with Some False del qe show ?thesis
          by (simp add: retryStateAfterFlush_def filesToRetryOf_def entryAfterFlush_def
              fileToRetry_def)
      qed
    qed
  qed
qed

lemma earliestRetry_Min:
  "earliestRetry es n = Min (insert n (set (map (nextRetryAt \<circ> snd) es)))"
proof (induction es arbitrary: n)
  case Nil
  then show ?case by simp
next
  case (Cons pe es)
  obtain p e where pe: "pe = (p, e)" by (cases pe)
  have "Min (insert n (insert (nextRetryAt e) (set (map (nextRetryAt \<circ> snd) es))))
          = Min (insert (min (nextRetryAt e) n) (set (map (nextRetryAt \<circ> snd) es)))"
    by (cases "set (map (nextRetryAt \<circ> snd) es) = {}")
       (auto simp: min_def Min_insert2 intro!: Min_eqI antisym)
  with Cons.IH [of "if nextRetryAt e < n then nextRetryAt e else n"] pe show ?case
    by (simp add: min_def)
qed


lemma queueFiles_nothing: "\<not> stopped st \<Longrightarrow> queueFiles [] st = st"
  by (simp add: queueFiles_def)

text \<open>
  C9. When the retry timer fires with the session current, the provider not stopped and
  one entry per path, \<open>flushRetries\<close> does what the specification says: an entry that
  has elapsed and whose path resolves to a file keeps its attempts and gets the
  unscheduled sentinel, and the file goes to \<open>queueFiles\<close>; an entry that has elapsed
  and whose path resolves to no file is deleted; the other entries stay as they are;
  and the timer is armed for the earliest of the remaining entries, or cleared when
  none of them is scheduled.
\<close>

theorem flushRetries_requeues_elapsed_entries:
  assumes run: "\<not> stopped st" "processingSession st = session"
    and d: "distinct (map fst (retryState st))"
  shows "flushRetries env session st
           = scheduleRetryTimer (e_now env) session
               (queueFiles (filesToRetryOf env (e_now env) (retryState st))
                  (st\<lparr>retryState := retryStateAfterFlush env (e_now env) (retryState st)\<rparr>))
         \<and> retryState (flushRetries env session st)
             = retryStateAfterFlush env (e_now env) (retryState st)
         \<and> retryTimer (flushRetries env session st)
             = retryTimerFor session (e_now env)
                 (retryStateAfterFlush env (e_now env) (retryState st))"
proof -
  let ?now = "e_now env"
  let ?rs = "retryStateAfterFlush env ?now (retryState st)"
  let ?fs = "filesToRetryOf env ?now (retryState st)"
  let ?st1 = "st\<lparr>retryState := ?rs\<rparr>"
  let ?q = "queueFiles ?fs ?st1"
  have ns1: "\<not> stopped ?st1" using run(1) by simp
  have 1: "flushRetries env session st = scheduleRetryTimer ?now session ?q"
  proof (cases "retryState st = []")
    case True
    then have e: "?rs = []" "?fs = []"
      by (simp_all add: retryStateAfterFlush_def filesToRetryOf_def)
    from True have "flushRetries env session st = clearRetryState st"
      by (simp add: flushRetries_def)
    also have "\<dots> = scheduleRetryTimer ?now session (st\<lparr>retryState := []\<rparr>)"
      by (simp add: clearRetryState_def clearRetryTimer_def scheduleRetryTimer_def)
    also have "st\<lparr>retryState := []\<rparr> = ?q"
      using run(1) by (simp only: e) (simp add: queueFiles_nothing)
    finally show ?thesis .
  next
    case False
    from flushLoop_spec [of st "[]" "retryState st" env ?now "[]"] d
    have l: "flushLoop env ?now (retryState st) st [] = (?st1, ?fs)" by simp
    have "(if ?fs \<noteq> [] then queueFiles ?fs ?st1 else ?st1) = ?q"
      using queueFiles_nothing [OF ns1] by simp
    with False run l show ?thesis by (simp add: flushRetries_def)
  qed
  have q: "\<not> stopped ?q" "processingSession ?q = session" "retryState ?q = ?rs"
    using run by (simp_all add: queueFiles_stopped ctl_fields [OF queueFiles_ctl])
  from 1 q have 2: "retryState (flushRetries env session st) = ?rs" by simp
  have 3: "retryTimer (flushRetries env session st) = retryTimerFor session ?now ?rs"
    unfolding 1
    using q
    by (simp add: scheduleRetryTimer_def clearRetryTimer_def Let_def retryTimerFor_def
        earliestRetry_Min)
  from 1 2 3 show ?thesis by blast
qed

theorem flushRetries_requeues_elapsed_entries_witness:
  "\<not> stopped retryingProvider \<and> processingSession retryingProvider = 0
   \<and> retryState retryingProvider
       = [(''notes/a.md'', \<lparr>attempts = 1, nextRetryAt = 1000\<rparr>),
          (''notes/b.md'', \<lparr>attempts = 1, nextRetryAt = 1000\<rparr>),
          (''notes/c.md'', \<lparr>attempts = 1, nextRetryAt = 6000\<rparr>)]
   \<and> retryState (flushRetries vanishedEnv 0 retryingProvider)
       = [(''notes/a.md'', \<lparr>attempts = 1, nextRetryAt = RETRY_UNSCHEDULED_AT\<rparr>),
          (''notes/c.md'', \<lparr>attempts = 1, nextRetryAt = 6000\<rparr>)]
   \<and> map (\<lambda>j. path (job_file j)) (queue (flushRetries vanishedEnv 0 retryingProvider))
       = [''notes/a.md'']
   \<and> retryTimer (flushRetries vanishedEnv 0 retryingProvider) = Some (0, 4500)
   \<and> flushRetries vanishedEnv 0 retryingProvider
       = scheduleRetryTimer (e_now vanishedEnv) 0
           (queueFiles (filesToRetryOf vanishedEnv (e_now vanishedEnv) (retryState retryingProvider))
              (retryingProvider\<lparr>retryState :=
                 retryStateAfterFlush vanishedEnv (e_now vanishedEnv) (retryState retryingProvider)\<rparr>))"
proof -
  have h: "\<not> stopped retryingProvider" "processingSession retryingProvider = 0"
    by code_simp+
  have rs: "retryState retryingProvider
       = [(''notes/a.md'', \<lparr>attempts = 1, nextRetryAt = 1000\<rparr>),
          (''notes/b.md'', \<lparr>attempts = 1, nextRetryAt = 1000\<rparr>),
          (''notes/c.md'', \<lparr>attempts = 1, nextRetryAt = 6000\<rparr>)]"
    by code_simp
  have d: "distinct (map fst (retryState retryingProvider))"
    by (simp add: rs)
  have a: "retryState (flushRetries vanishedEnv 0 retryingProvider)
       = [(''notes/a.md'', \<lparr>attempts = 1, nextRetryAt = RETRY_UNSCHEDULED_AT\<rparr>),
          (''notes/c.md'', \<lparr>attempts = 1, nextRetryAt = 6000\<rparr>)]"
    by code_simp
  have b: "map (\<lambda>j. path (job_file j)) (queue (flushRetries vanishedEnv 0 retryingProvider))
       = [''notes/a.md'']"
    by code_simp
  have c: "retryTimer (flushRetries vanishedEnv 0 retryingProvider) = Some (0, 4500)"
    by code_simp
  from flushRetries_requeues_elapsed_entries [OF h d, of vanishedEnv] h rs a b c
  show ?thesis by blast
qed

end
